theory Spec2Isabelle
  imports Main "HOL-Library.Sublist" "HOL-Library.AList"
begin

section \<open>The filesystem seen by the synchronizer\<close>

text \<open>
  \<^verbatim>\<open>folder_sync.py\<close> works on two directory trees, \<^verbatim>\<open>self.source\<close> and
  \<^verbatim>\<open>self.replica\<close>. A location is one of the two roots together with the path below
  it, given by its components: the root itself is the empty path, and
  \<^verbatim>\<open>os.path.join(root, file)\<close> appends a component. The component \<^verbatim>\<open>"."\<close> that
  \<^verbatim>\<open>os.path.relpath(root, root)\<close> returns is not kept, so the mirrored path of
  \<^verbatim>\<open>source/a/b\<close> is the same component list below the other root.

  Each tree is a finite table from paths to nodes, in listing order. The two trees
  are separate tables: the model covers a source and a replica that do not contain
  one another. A root that is a regular file, symbolic links and permission bits are
  not modelled.
\<close>

type_synonym name = string
type_synonym path = "name list"
type_synonym content = string
type_synonym digest = string

datatype node = File content | Dir

type_synonym fs = "(path \<times> node) list"

datatype tree = Source | Replica

type_synonym location = "tree \<times> path"

datatype error =
    FileNotFoundError location
  | IsADirectoryError location
  | NotADirectoryError location
  | FileExistsError location
  | LogFileError

text \<open>One line of the log file per message of \<^verbatim>\<open>log_operation\<close>.\<close>

datatype log_record =
    CreatedReplicaFolder
  | CreatedFolder location
  | CopiedUpdatedFile location
  | RemovedFolder location
  | RemovedFile location
  | ErrorDuringSynchronization error

text \<open>
  The state a pass reads and writes: both trees, the dictionary \<^verbatim>\<open>self.md5_cache\<close>
  (keyed by the path string, here the location), the lines appended to
  \<^verbatim>\<open>self.log_file\<close> and whether that file can be opened for appending.
\<close>

record state =
  source_fs :: fs
  replica_fs :: fs
  md5_cache :: "location \<rightharpoonup> digest"
  log_lines :: "log_record list"
  log_writable :: bool

text \<open>
  A statement either raises, leaving the state as it was at the raise, or returns a
  value and the new state.
\<close>

datatype 'a result = Raised error state | Returned 'a state

definition fs_of :: "state \<Rightarrow> tree \<Rightarrow> fs" where
  "fs_of s t = (case t of Source \<Rightarrow> source_fs s | Replica \<Rightarrow> replica_fs s)"

definition put_fs :: "tree \<Rightarrow> fs \<Rightarrow> state \<Rightarrow> state" where
  "put_fs t f s = (case t of Source \<Rightarrow> s\<lparr>source_fs := f\<rparr> | Replica \<Rightarrow> s\<lparr>replica_fs := f\<rparr>)"

definition stat :: "state \<Rightarrow> location \<Rightarrow> node option" where
  "stat s l = map_of (fs_of s (fst l)) (snd l)"

subsection \<open>The library calls the program makes\<close>

definition os_path_exists :: "state \<Rightarrow> location \<Rightarrow> bool" where
  "os_path_exists s l = (stat s l \<noteq> None)"

definition is_file :: "node option \<Rightarrow> bool" where
  "is_file n = (case n of Some (File c) \<Rightarrow> True | _ \<Rightarrow> False)"

text \<open>
  \<^verbatim>\<open>os.makedirs(p)\<close> creates \<^verbatim>\<open>p\<close> and every missing directory above it. It raises
  \<^verbatim>\<open>FileExistsError\<close> when \<^verbatim>\<open>p\<close> is there already and \<^verbatim>\<open>NotADirectoryError\<close>
  when a component above it is a regular file.
\<close>

definition os_makedirs :: "location \<Rightarrow> state \<Rightarrow> unit result" where
  "os_makedirs l s =
     (let f = fs_of s (fst l) in
      if map_of f (snd l) \<noteq> None then Raised (FileExistsError l) s
      else if list_ex (\<lambda>q. is_file (map_of f q)) (prefixes (snd l))
        then Raised (NotADirectoryError l) s
      else Returned () (put_fs (fst l) (fold (\<lambda>q. AList.update q Dir) (prefixes (snd l)) f) s))"

text \<open>
  \<^verbatim>\<open>open(p, "rb")\<close> followed by reading every chunk: the bytes of the file.
\<close>

definition open_rb :: "state \<Rightarrow> location \<Rightarrow> error + content" where
  "open_rb s l =
     (case stat s l of
        None \<Rightarrow> Inl (FileNotFoundError l)
      | Some Dir \<Rightarrow> Inl (IsADirectoryError l)
      | Some (File c) \<Rightarrow> Inr c)"

text \<open>
  \<^verbatim>\<open>shutil.copy2(src, dst)\<close>: when \<^verbatim>\<open>dst\<close> is a directory the file is written
  into it under the last component of \<^verbatim>\<open>src\<close>; the directory that receives the file
  must exist.
\<close>

definition shutil_copy2 :: "location \<Rightarrow> location \<Rightarrow> state \<Rightarrow> unit result" where
  "shutil_copy2 src dst s =
     (case open_rb s src of
        Inl e \<Rightarrow> Raised e s
      | Inr c \<Rightarrow>
          (let target = (if stat s dst = Some Dir then (fst dst, snd dst @ [last (snd src)]) else dst);
               f = fs_of s (fst target)
           in if snd target \<noteq> [] \<and> map_of f (butlast (snd target)) = None
                then Raised (FileNotFoundError target) s
              else if snd target \<noteq> [] \<and> map_of f (butlast (snd target)) \<noteq> Some Dir
                then Raised (NotADirectoryError target) s
              else if map_of f (snd target) = Some Dir
                then Raised (IsADirectoryError target) s
              else Returned () (put_fs (fst target) (AList.update (snd target) (File c) f) s)))"

text \<open>\<^verbatim>\<open>shutil.rmtree(p)\<close> removes the directory \<^verbatim>\<open>p\<close> and everything below it.\<close>

definition shutil_rmtree :: "location \<Rightarrow> state \<Rightarrow> unit result" where
  "shutil_rmtree l s =
     (case stat s l of
        None \<Rightarrow> Raised (FileNotFoundError l) s
      | Some (File c) \<Rightarrow> Raised (NotADirectoryError l) s
      | Some Dir \<Rightarrow>
          Returned () (put_fs (fst l) (filter (\<lambda>e. \<not> prefix (snd l) (fst e)) (fs_of s (fst l))) s))"

definition os_remove :: "location \<Rightarrow> state \<Rightarrow> unit result" where
  "os_remove l s =
     (case stat s l of
        None \<Rightarrow> Raised (FileNotFoundError l) s
      | Some Dir \<Rightarrow> Raised (IsADirectoryError l) s
      | Some (File c) \<Rightarrow>
          Returned () (put_fs (fst l) (filter (\<lambda>e. fst e \<noteq> snd l) (fs_of s (fst l))) s))"

text \<open>
  One step of \<^verbatim>\<open>os.walk\<close>: the names in the directory it has reached, directories and
  the rest apart. \<^verbatim>\<open>None\<close> is the \<^verbatim>\<open>OSError\<close> of \<^verbatim>\<open>scandir\<close>, which
  \<^verbatim>\<open>os.walk\<close> swallows. A listing holds no name twice.
\<close>

definition children :: "fs \<Rightarrow> path \<Rightarrow> name list" where
  "children f root =
     remdups (map (\<lambda>e. last (fst e)) (filter (\<lambda>e. fst e \<noteq> [] \<and> butlast (fst e) = root) f))"

definition scandir :: "state \<Rightarrow> location \<Rightarrow> (name list \<times> name list) option" where
  "scandir s l =
     (if stat s l = Some Dir
      then (let ns = children (fs_of s (fst l)) (snd l)
            in Some (filter (\<lambda>n. stat s (fst l, snd l @ [n]) = Some Dir) ns,
                     filter (\<lambda>n. stat s (fst l, snd l @ [n]) \<noteq> Some Dir) ns))
      else None)"

section \<open>FolderSynchronizer\<close>

text \<open>
  \<^verbatim>\<open>hashlib.md5\<close> is a parameter \<open>H\<close> of the model: the digest of a byte string.
\<close>

definition calculate_md5 :: "(content \<Rightarrow> digest) \<Rightarrow> location \<Rightarrow> state \<Rightarrow> digest option result" where
  "calculate_md5 H file_path s =
     (case md5_cache s file_path of
        Some d \<Rightarrow> Returned (Some d) s
      | None \<Rightarrow>
          (case open_rb s file_path of
             Inl (FileNotFoundError l) \<Rightarrow> Returned None s
           | Inl e \<Rightarrow> Raised e s
           | Inr c \<Rightarrow> Returned (Some (H c)) (s\<lparr>md5_cache := (md5_cache s)(file_path \<mapsto> H c)\<rparr>)))"

definition log_operation :: "log_record \<Rightarrow> state \<Rightarrow> unit result" where
  "log_operation message s =
     (if log_writable s then Returned () (s\<lparr>log_lines := log_lines s @ [message]\<rparr>)
      else Raised LogFileError s)"

text \<open>
  The body of the inner loop of the first walk: one file of the source directory
  \<^verbatim>\<open>root\<close>. The existence test comes first and short-circuits, then the digest of
  the source file is taken before that of the replica file.
\<close>

definition copy_and_log :: "location \<Rightarrow> location \<Rightarrow> state \<Rightarrow> unit result" where
  "copy_and_log source_file replica_file s =
     (case shutil_copy2 source_file replica_file s of
        Raised e s' \<Rightarrow> Raised e s'
      | Returned u s' \<Rightarrow> log_operation (CopiedUpdatedFile replica_file) s')"

definition copy_or_update_file :: "(content \<Rightarrow> digest) \<Rightarrow> path \<Rightarrow> name \<Rightarrow> state \<Rightarrow> unit result" where
  "copy_or_update_file H root file s =
     (let source_file = (Source, root @ [file]);
          replica_file = (Replica, root @ [file])
      in if \<not> os_path_exists s replica_file then copy_and_log source_file replica_file s
         else (case calculate_md5 H source_file s of
                 Raised e s1 \<Rightarrow> Raised e s1
               | Returned d1 s1 \<Rightarrow>
                   (case calculate_md5 H replica_file s1 of
                      Raised e s2 \<Rightarrow> Raised e s2
                    | Returned d2 s2 \<Rightarrow>
                        if d1 \<noteq> d2 then copy_and_log source_file replica_file s2
                        else Returned () s2)))"

fun copy_files :: "(content \<Rightarrow> digest) \<Rightarrow> path \<Rightarrow> name list \<Rightarrow> state \<Rightarrow> unit result" where
  "copy_files H root [] s = Returned () s"
| "copy_files H root (file # files) s =
     (case copy_or_update_file H root file s of
        Raised e s' \<Rightarrow> Raised e s'
      | Returned u s' \<Rightarrow> copy_files H root files s')"

text \<open>The body of the first walk for one directory \<^verbatim>\<open>root\<close> of the source.\<close>

definition sync_source_dir :: "(content \<Rightarrow> digest) \<Rightarrow> path \<Rightarrow> name list \<Rightarrow> state \<Rightarrow> unit result" where
  "sync_source_dir H root files s =
     (let replica_root = (Replica, root)
      in case (if \<not> os_path_exists s replica_root
               then (case os_makedirs replica_root s of
                       Raised e s' \<Rightarrow> Raised e s'
                     | Returned u s' \<Rightarrow> log_operation (CreatedFolder replica_root) s')
               else Returned () s) of
           Raised e s' \<Rightarrow> Raised e s'
         | Returned u s' \<Rightarrow> copy_files H root files s')"

text \<open>The body of the inner loop of the second walk: one file of the replica.\<close>

definition remove_replica_file :: "path \<Rightarrow> name \<Rightarrow> state \<Rightarrow> unit result" where
  "remove_replica_file root file s =
     (let replica_file = (Replica, root @ [file]);
          source_file = (Source, root @ [file])
      in if \<not> os_path_exists s source_file
         then (case os_remove replica_file s of
                 Raised e s' \<Rightarrow> Raised e s'
               | Returned u s' \<Rightarrow> log_operation (RemovedFile replica_file) s')
         else Returned () s)"

fun remove_files :: "path \<Rightarrow> name list \<Rightarrow> state \<Rightarrow> unit result" where
  "remove_files root [] s = Returned () s"
| "remove_files root (file # files) s =
     (case remove_replica_file root file s of
        Raised e s' \<Rightarrow> Raised e s'
      | Returned u s' \<Rightarrow> remove_files root files s')"

text \<open>
  The body of the second walk for one directory \<^verbatim>\<open>root\<close> of the replica. After
  \<^verbatim>\<open>shutil.rmtree\<close> the loop over the files listed before goes on.
\<close>

definition sync_replica_dir :: "path \<Rightarrow> name list \<Rightarrow> state \<Rightarrow> unit result" where
  "sync_replica_dir root files s =
     (let source_root = (Source, root)
      in case (if \<not> os_path_exists s source_root
               then (case shutil_rmtree (Replica, root) s of
                       Raised e s' \<Rightarrow> Raised e s'
                     | Returned u s' \<Rightarrow> log_operation (RemovedFolder (Replica, root)) s')
               else Returned () s) of
           Raised e s' \<Rightarrow> Raised e s'
         | Returned u s' \<Rightarrow> remove_files root files s')"

subsection \<open>The two walks\<close>

text \<open>
  \<^verbatim>\<open>for root, _, files in os.walk(top)\<close> runs top-down: \<^verbatim>\<open>os.walk\<close> keeps the
  directories still to visit, lists the next one when the loop asks for it, hands
  the listing to the loop body and, after the body, queues the subdirectories it
  had listed, first one first. A directory that cannot be listed when its turn
  comes is skipped. The walks below are that loop with the body in place; the size
  of what is still to list bounds them.
\<close>

definition below :: "fs \<Rightarrow> path \<Rightarrow> nat" where
  "below f q = length (filter (\<lambda>e. prefix q (fst e)) f)"

definition pending :: "fs \<Rightarrow> path list \<Rightarrow> nat" where
  "pending f stack = sum_list (map (below f) stack)"

fun final :: "'a result \<Rightarrow> state" where
  "final (Raised e s) = s"
| "final (Returned v s) = s"

lemma below_split:
  "below f q = length (filter (\<lambda>e. fst e = q) f) + length (filter (\<lambda>e. strict_prefix q (fst e)) f)"
  unfolding below_def by (induction f) (auto simp: strict_prefix_def)

lemma child_prefix_unique:
  "prefix (root @ [d]) k \<Longrightarrow> prefix (root @ [d']) k \<Longrightarrow> d = d'"
  by (auto simp: prefix_def)

lemma child_prefix_strict: "prefix (root @ [d]) k \<Longrightarrow> strict_prefix root k"
  by (auto simp: prefix_def strict_prefix_def)

definition hit :: "path \<Rightarrow> path \<Rightarrow> name \<Rightarrow> nat" where
  "hit root k d = (if prefix (root @ [d]) k then 1 else 0)"

lemma hits_zero: "\<forall>d \<in> set ds. \<not> prefix (root @ [d]) k \<Longrightarrow> sum_list (map (hit root k) ds) = 0"
  by (induction ds) (simp_all add: hit_def)

lemma hits_le_one:
  "distinct ds \<Longrightarrow> sum_list (map (hit root k) ds) \<le> (if strict_prefix root k then 1 else 0)"
proof (induction ds)
  case Nil
  then show ?case by simp
next
  case (Cons d ds)
  show ?case
  proof (cases "prefix (root @ [d]) k")
    case True
    have "\<forall>d' \<in> set ds. \<not> prefix (root @ [d']) k"
      using Cons.prems True child_prefix_unique by fastforce
    then have "sum_list (map (hit root k) ds) = 0" by (rule hits_zero)
    then show ?thesis using True child_prefix_strict[OF True] by (simp add: hit_def)
  next
    case False
    then show ?thesis using Cons by (simp add: hit_def)
  qed
qed

lemma children_below_Cons:
  "sum_list (map (\<lambda>d. below (e # f) (root @ [d])) ds)
    = sum_list (map (hit root (fst e)) ds) + sum_list (map (\<lambda>d. below f (root @ [d])) ds)"
  by (induction ds) (simp_all add: below_def hit_def)

lemma children_below_le:
  "distinct ds \<Longrightarrow> sum_list (map (\<lambda>d. below f (root @ [d])) ds) \<le> length (filter (\<lambda>e. strict_prefix root (fst e)) f)"
proof (induction f)
  case Nil
  then show ?case by (simp add: below_def)
next
  case (Cons e f)
  have "sum_list (map (hit root (fst e)) ds) \<le> (if strict_prefix root (fst e) then 1 else 0)"
    using Cons.prems by (rule hits_le_one)
  moreover have "sum_list (map (\<lambda>d. below f (root @ [d])) ds) \<le> length (filter (\<lambda>e. strict_prefix root (fst e)) f)"
    using Cons by simp
  moreover have "length (filter (\<lambda>e. strict_prefix root (fst e)) (e # f))
      = (if strict_prefix root (fst e) then 1 else 0) + length (filter (\<lambda>e. strict_prefix root (fst e)) f)"
    by simp
  ultimately show ?case unfolding children_below_Cons by linarith
qed

lemma children_below_less:
  assumes "map_of f root = Some v" "distinct ds"
  shows "sum_list (map (\<lambda>d. below f (root @ [d])) ds) < below f root"
proof -
  have "root \<in> fst ` set f" using map_of_SomeD[OF assms(1)] by force
  then have "filter (\<lambda>e. fst e = root) f \<noteq> []" by (auto simp: filter_empty_conv)
  then have "0 < length (filter (\<lambda>e. fst e = root) f)" by simp
  then show ?thesis using children_below_le[OF assms(2), of f root] below_split[of f root] by linarith
qed

lemma pending_push:
  "pending f (map (\<lambda>d. root @ [d]) dirs @ stack) = sum_list (map (\<lambda>d. below f (root @ [d])) dirs) + pending f stack"
  by (simp add: pending_def comp_def)

lemma pending_Cons: "pending f (root # stack) = below f root + pending f stack"
  by (simp add: pending_def)

lemma below_subseq:
  assumes "subseq f' f"
  shows "below f' q \<le> below f q"
proof -
  have "subseq (filter (\<lambda>e. prefix q (fst e)) f') (filter (\<lambda>e. prefix q (fst e)) f)"
    using assms by (rule subseq_filter)
  then show ?thesis unfolding below_def by (rule list_emb_length)
qed

lemma pending_subseq: "subseq f' f \<Longrightarrow> pending f' stack \<le> pending f stack"
  unfolding pending_def by (induction stack) (simp_all add: below_subseq add_mono)

lemma scandir_SomeD:
  "scandir s (t, root) = Some (dirs, files) \<Longrightarrow> map_of (fs_of s t) root = Some Dir \<and> distinct dirs"
  by (auto simp: scandir_def stat_def children_def Let_def split: if_splits)

subsection \<open>What the loop bodies leave alone\<close>

lemma fs_of_put_fs [simp]: "fs_of (put_fs t f s) t' = (if t' = t then f else fs_of s t')"
  by (cases t; cases t') (simp_all add: fs_of_def put_fs_def)

lemma put_fs_fields [simp]:
  "md5_cache (put_fs t f s) = md5_cache s"
  "log_lines (put_fs t f s) = log_lines s"
  "log_writable (put_fs t f s) = log_writable s"
  by (cases t; simp add: put_fs_def)+

lemma fs_of_fields [simp]:
  "fs_of (s\<lparr>md5_cache := m\<rparr>) t = fs_of s t"
  "fs_of (s\<lparr>log_lines := ls\<rparr>) t = fs_of s t"
  by (simp_all add: fs_of_def split: tree.splits)

lemma fs_of_simps [simp]: "fs_of s Source = source_fs s" "fs_of s Replica = replica_fs s"
  by (simp_all add: fs_of_def)

lemma log_operation_fs [simp]: "fs_of (final (log_operation m s)) t = fs_of s t"
  by (simp add: log_operation_def del: fs_of_simps)

lemma calculate_md5_fs [simp]: "fs_of (final (calculate_md5 H l s)) t = fs_of s t"
  by (simp add: calculate_md5_def del: fs_of_simps split: option.splits sum.splits error.splits)

lemma os_makedirs_other: "t \<noteq> fst l \<Longrightarrow> fs_of (final (os_makedirs l s)) t = fs_of s t"
  by (simp add: os_makedirs_def Let_def del: fs_of_simps)

lemma shutil_copy2_other: "t \<noteq> fst dst \<Longrightarrow> fs_of (final (shutil_copy2 src dst s)) t = fs_of s t"
  by (simp add: shutil_copy2_def Let_def  del: fs_of_simps split: sum.splits)

lemma shutil_rmtree_other: "t \<noteq> fst l \<Longrightarrow> fs_of (final (shutil_rmtree l s)) t = fs_of s t"
  by (simp add: shutil_rmtree_def del: fs_of_simps split: option.splits node.splits)

lemma os_remove_other: "t \<noteq> fst l \<Longrightarrow> fs_of (final (os_remove l s)) t = fs_of s t"
  by (simp add: os_remove_def del: fs_of_simps split: option.splits node.splits)

lemma shutil_rmtree_subseq: "subseq (fs_of (final (shutil_rmtree l s)) t) (fs_of s t)"
  by (simp add: shutil_rmtree_def del: fs_of_simps split: option.splits node.splits)

lemma os_remove_subseq: "subseq (fs_of (final (os_remove l s)) t) (fs_of s t)"
  by (simp add: os_remove_def del: fs_of_simps split: option.splits node.splits)

text \<open>
  A relation between the state before a statement and the state it ends in, whether
  it returns or raises, is kept by a sequence when each part keeps it.
\<close>

lemma seq_keeps:
  assumes "transp R"
    and "R s (final r)"
    and "\<And>v s'. r = Returned v s' \<Longrightarrow> R s' (final (k v s'))"
  shows "R s (final (case r of Raised e s' \<Rightarrow> Raised e s' | Returned v s' \<Rightarrow> k v s'))"
proof (cases r)
  case (Raised e s')
  then show ?thesis using assms(2) by simp
next
  case (Returned v s')
  then have "R s s'" using assms(2) by simp
  moreover have "R s' (final (k v s'))" using Returned by (rule assms(3))
  ultimately have "R s (final (k v s'))" using assms(1) by (meson transpD)
  then show ?thesis using Returned by simp
qed

definition same_source :: "state \<Rightarrow> state \<Rightarrow> bool" where
  "same_source s s' = (source_fs s' = source_fs s)"

lemma same_source_transp: "transp same_source"
  by (simp add: transp_def same_source_def)

lemma same_source_refl [simp]: "same_source s s"
  by (simp add: same_source_def)

lemma log_operation_same_source: "same_source s (final (log_operation m s))"
  using log_operation_fs[of m s Source] by (simp add: same_source_def)

lemma calculate_md5_same_source: "same_source s (final (calculate_md5 H l s))"
  using calculate_md5_fs[of H l s Source] by (simp add: same_source_def)

lemma os_makedirs_same_source: "same_source s (final (os_makedirs (Replica, p) s))"
  using os_makedirs_other[of Source "(Replica, p)" s] by (simp add: same_source_def)

lemma shutil_copy2_same_source: "same_source s (final (shutil_copy2 src (Replica, p) s))"
  using shutil_copy2_other[of Source "(Replica, p)" src s] by (simp add: same_source_def)

lemma shutil_rmtree_same_source: "same_source s (final (shutil_rmtree (Replica, p) s))"
  using shutil_rmtree_other[of Source "(Replica, p)" s] by (simp add: same_source_def)

lemma os_remove_same_source: "same_source s (final (os_remove (Replica, p) s))"
  using os_remove_other[of Source "(Replica, p)" s] by (simp add: same_source_def)

lemma copy_and_log_same_source: "same_source s (final (copy_and_log src (Replica, p) s))"
  unfolding copy_and_log_def
  by (intro seq_keeps[of same_source, OF same_source_transp] shutil_copy2_same_source log_operation_same_source)

lemma copy_or_update_file_same_source: "same_source s (final (copy_or_update_file H root file s))"
  unfolding copy_or_update_file_def Let_def
  by (auto intro!: seq_keeps[of same_source, OF same_source_transp] copy_and_log_same_source calculate_md5_same_source)

lemma copy_files_same_source: "same_source s (final (copy_files H root files s))"
proof (induction files arbitrary: s)
  case Nil
  show ?case by simp
next
  case (Cons x xs)
  show ?case unfolding copy_files.simps
    by (intro seq_keeps[of same_source, OF same_source_transp] copy_or_update_file_same_source Cons)
qed

lemma sync_source_dir_same_source: "same_source s (final (sync_source_dir H root files s))"
  unfolding sync_source_dir_def Let_def
  by (auto intro!: seq_keeps[of same_source, OF same_source_transp] copy_files_same_source os_makedirs_same_source
      log_operation_same_source)

lemma remove_replica_file_same_source: "same_source s (final (remove_replica_file root file s))"
  unfolding remove_replica_file_def Let_def
  by (auto intro!: seq_keeps[of same_source, OF same_source_transp] os_remove_same_source log_operation_same_source)

lemma remove_files_same_source: "same_source s (final (remove_files root files s))"
proof (induction files arbitrary: s)
  case Nil
  show ?case by simp
next
  case (Cons x xs)
  show ?case unfolding remove_files.simps
    by (intro seq_keeps[of same_source, OF same_source_transp] remove_replica_file_same_source Cons)
qed

lemma sync_replica_dir_same_source: "same_source s (final (sync_replica_dir root files s))"
  unfolding sync_replica_dir_def Let_def
  by (auto intro!: seq_keeps[of same_source, OF same_source_transp] remove_files_same_source shutil_rmtree_same_source
      log_operation_same_source)

text \<open>The second walk only takes entries away from the replica.\<close>

definition replica_shrinks :: "state \<Rightarrow> state \<Rightarrow> bool" where
  "replica_shrinks s s' = subseq (replica_fs s') (replica_fs s)"

lemma replica_shrinks_transp: "transp replica_shrinks"
  unfolding transp_def replica_shrinks_def by (meson subseq_order.trans)

lemma replica_shrinks_refl [simp]: "replica_shrinks s s"
  by (simp add: replica_shrinks_def)

lemma log_operation_shrinks: "replica_shrinks s (final (log_operation m s))"
  using log_operation_fs[of m s Replica] by (simp add: replica_shrinks_def)

lemma shutil_rmtree_shrinks: "replica_shrinks s (final (shutil_rmtree l s))"
  using shutil_rmtree_subseq[of l s Replica] by (simp add: replica_shrinks_def)

lemma os_remove_shrinks: "replica_shrinks s (final (os_remove l s))"
  using os_remove_subseq[of l s Replica] by (simp add: replica_shrinks_def)

lemma remove_replica_file_shrinks: "replica_shrinks s (final (remove_replica_file root file s))"
  unfolding remove_replica_file_def Let_def
  by (auto intro!: seq_keeps[of replica_shrinks, OF replica_shrinks_transp] os_remove_shrinks log_operation_shrinks)

lemma remove_files_shrinks: "replica_shrinks s (final (remove_files root files s))"
proof (induction files arbitrary: s)
  case Nil
  show ?case by simp
next
  case (Cons x xs)
  show ?case unfolding remove_files.simps
    by (intro seq_keeps[of replica_shrinks, OF replica_shrinks_transp] remove_replica_file_shrinks Cons)
qed

lemma sync_replica_dir_shrinks: "replica_shrinks s (final (sync_replica_dir root files s))"
  unfolding sync_replica_dir_def Let_def
  by (auto intro!: seq_keeps[of replica_shrinks, OF replica_shrinks_transp] remove_files_shrinks shutil_rmtree_shrinks
      log_operation_shrinks)

function copy_phase :: "(content \<Rightarrow> digest) \<Rightarrow> path list \<Rightarrow> state \<Rightarrow> unit result" where
  "copy_phase H [] s = Returned () s"
| "copy_phase H (root # stack) s =
     (case scandir s (Source, root) of
        None \<Rightarrow> copy_phase H stack s
      | Some (dirs, files) \<Rightarrow>
          (case sync_source_dir H root files s of
             Raised e s' \<Rightarrow> Raised e s'
           | Returned u s' \<Rightarrow> copy_phase H (map (\<lambda>d. root @ [d]) dirs @ stack) s'))"
  by pat_completeness auto
termination
proof (relation "measures [\<lambda>(H, stack, s). pending (source_fs s) stack, \<lambda>(H, stack, s). length stack]")
  show "wf (measures [\<lambda>(H, stack, s). pending (source_fs s) stack, \<lambda>(H, stack, s). length stack])"
    by simp
next
  fix H :: "content \<Rightarrow> digest" and root :: path and stack :: "path list" and s :: state
  show "((H, stack, s), (H, root # stack, s))
      \<in> measures [\<lambda>(H, stack, s). pending (source_fs s) stack, \<lambda>(H, stack, s). length stack]"
    by (auto simp: pending_Cons)
next
  fix H :: "content \<Rightarrow> digest" and root :: path and stack :: "path list" and s s' :: state
    and x2 dirs files u
  assume scan: "scandir s (Source, root) = Some x2" "(dirs, files) = x2"
    and body: "sync_source_dir H root files s = Returned u s'"
  have "source_fs s' = source_fs s"
    using sync_source_dir_same_source[of s H root files] body by (simp add: same_source_def)
  moreover have "sum_list (map (\<lambda>d. below (source_fs s) (root @ [d])) dirs) < below (source_fs s) root"
    using scandir_SomeD[of s Source root dirs files] scan children_below_less by auto
  ultimately show "((H, map (\<lambda>d. root @ [d]) dirs @ stack, s'), (H, root # stack, s))
      \<in> measures [\<lambda>(H, stack, s). pending (source_fs s) stack, \<lambda>(H, stack, s). length stack]"
    by (simp add: pending_Cons pending_push)
qed

function remove_phase :: "path list \<Rightarrow> state \<Rightarrow> unit result" where
  "remove_phase [] s = Returned () s"
| "remove_phase (root # stack) s =
     (case scandir s (Replica, root) of
        None \<Rightarrow> remove_phase stack s
      | Some (dirs, files) \<Rightarrow>
          (case sync_replica_dir root files s of
             Raised e s' \<Rightarrow> Raised e s'
           | Returned u s' \<Rightarrow> remove_phase (map (\<lambda>d. root @ [d]) dirs @ stack) s'))"
  by pat_completeness auto
termination
proof (relation "measures [\<lambda>(stack, s). pending (replica_fs s) stack, \<lambda>(stack, s). length stack]")
  show "wf (measures [\<lambda>(stack, s). pending (replica_fs s) stack, \<lambda>(stack, s). length stack])"
    by simp
next
  fix root :: path and stack :: "path list" and s :: state
  show "((stack, s), (root # stack, s))
      \<in> measures [\<lambda>(stack, s). pending (replica_fs s) stack, \<lambda>(stack, s). length stack]"
    by (auto simp: pending_Cons)
next
  fix root :: path and stack :: "path list" and s s' :: state and x2 dirs files u
  assume scan: "scandir s (Replica, root) = Some x2" "(dirs, files) = x2"
    and body: "sync_replica_dir root files s = Returned u s'"
  have sub: "subseq (replica_fs s') (replica_fs s)"
    using sync_replica_dir_shrinks[of s root files] body by (simp add: replica_shrinks_def)
  have "pending (replica_fs s') (map (\<lambda>d. root @ [d]) dirs @ stack)
      \<le> pending (replica_fs s) (map (\<lambda>d. root @ [d]) dirs @ stack)"
    using sub by (rule pending_subseq)
  moreover have "sum_list (map (\<lambda>d. below (replica_fs s) (root @ [d])) dirs) < below (replica_fs s) root"
    using scandir_SomeD[of s Replica root dirs files] scan children_below_less by auto
  ultimately show "((map (\<lambda>d. root @ [d]) dirs @ stack, s'), (root # stack, s))
      \<in> measures [\<lambda>(stack, s). pending (replica_fs s) stack, \<lambda>(stack, s). length stack]"
    by (simp add: pending_Cons pending_push)
qed

subsection \<open>One pass and the periodic loop\<close>

text \<open>The \<^verbatim>\<open>try\<close> block of \<^verbatim>\<open>sync_folders\<close>.\<close>

definition synchronize :: "(content \<Rightarrow> digest) \<Rightarrow> state \<Rightarrow> unit result" where
  "synchronize H s =
     (case (if \<not> os_path_exists s (Replica, [])
            then (case os_makedirs (Replica, []) s of
                    Raised e s' \<Rightarrow> Raised e s'
                  | Returned u s' \<Rightarrow> log_operation CreatedReplicaFolder s')
            else Returned () s) of
        Raised e s1 \<Rightarrow> Raised e s1
      | Returned u s1 \<Rightarrow>
          (case copy_phase H [[]] s1 of
             Raised e s2 \<Rightarrow> Raised e s2
           | Returned u s2 \<Rightarrow> remove_phase [[]] s2))"

text \<open>
  \<^verbatim>\<open>sync_folders\<close>: the handler \<^verbatim>\<open>except Exception as e\<close> logs the error; what
  the handler itself raises reaches the caller.
\<close>

definition sync_folders :: "(content \<Rightarrow> digest) \<Rightarrow> state \<Rightarrow> unit result" where
  "sync_folders H s =
     (case synchronize H s of
        Raised e s' \<Rightarrow> log_operation (ErrorDuringSynchronization e) s'
      | Returned u s' \<Rightarrow> Returned () s')"

text \<open>
  The first \<open>n\<close> rounds of the loop \<^verbatim>\<open>while True\<close> of \<^verbatim>\<open>run\<close>; the sleep between
  two rounds changes nothing in the state.
\<close>

fun run :: "(content \<Rightarrow> digest) \<Rightarrow> nat \<Rightarrow> state \<Rightarrow> unit result" where
  "run H 0 s = Returned () s"
| "run H (Suc n) s =
     (case sync_folders H s of
        Raised e s' \<Rightarrow> Raised e s'
      | Returned u s' \<Rightarrow> run H n s')"

text \<open>
  To run the model on a concrete state the digest must be a concrete function: the
  identity, which like MD5 on the inputs used below gives different contents
  different digests.
\<close>

definition plain_digest :: "content \<Rightarrow> digest" where
  "plain_digest c = c"

definition fresh :: "fs \<Rightarrow> fs \<Rightarrow> state" where
  "fresh src rep = \<lparr>source_fs = src, replica_fs = rep, md5_cache = Map.empty, log_lines = [], log_writable = True\<rparr>"

section \<open>The fingerprint and its cache\<close>

lemma stat_fresh [simp]:
  "stat (fresh src rep) (Source, p) = map_of src p"
  "stat (fresh src rep) (Replica, p) = map_of rep p"
  by (simp_all add: stat_def fresh_def)

lemma fresh_fields [simp]:
  "source_fs (fresh src rep) = src"
  "replica_fs (fresh src rep) = rep"
  "md5_cache (fresh src rep) = Map.empty"
  "log_lines (fresh src rep) = []"
  "log_writable (fresh src rep) = True"
  by (simp_all add: fresh_def)

text \<open>
  Claim C8. \<^verbatim>\<open>calculate_md5\<close> returns the cached fingerprint when the path is in
  the cache and leaves the state as it is. Otherwise it reads the file and, when that
  succeeds, stores the digest under the path and returns it. When the path cannot be
  read as a file nothing is stored: the state is unchanged, and a call on the same
  path in a later state with that cache, where the path is a readable file, returns
  the file's fingerprint.
\<close>

theorem calculate_md5_cache:
  "(md5_cache s l = Some d \<longrightarrow> calculate_md5 H l s = Returned (Some d) s) \<and>
   (md5_cache s l = None \<longrightarrow> stat s l = Some (File c) \<longrightarrow>
      calculate_md5 H l s = Returned (Some (H c)) (s\<lparr>md5_cache := (md5_cache s)(l \<mapsto> H c)\<rparr>)) \<and>
   (md5_cache s l = None \<longrightarrow> \<not> is_file (stat s l) \<longrightarrow>
      final (calculate_md5 H l s) = s \<and>
      (\<forall>s2 c2. md5_cache s2 = md5_cache (final (calculate_md5 H l s)) \<longrightarrow> stat s2 l = Some (File c2) \<longrightarrow>
         calculate_md5 H l s2 = Returned (Some (H c2)) (s2\<lparr>md5_cache := (md5_cache s2)(l \<mapsto> H c2)\<rparr>)))"
proof (intro conjI impI)
  assume "md5_cache s l = Some d"
  then show "calculate_md5 H l s = Returned (Some d) s"
    by (simp add: calculate_md5_def)
next
  assume "md5_cache s l = None" "stat s l = Some (File c)"
  then show "calculate_md5 H l s = Returned (Some (H c)) (s\<lparr>md5_cache := (md5_cache s)(l \<mapsto> H c)\<rparr>)"
    by (simp add: calculate_md5_def open_rb_def)
next
  assume miss: "md5_cache s l = None" and unreadable: "\<not> is_file (stat s l)"
  then show same: "final (calculate_md5 H l s) = s"
    by (auto simp: calculate_md5_def open_rb_def is_file_def split: option.splits node.splits)
  show "\<forall>s2 c2. md5_cache s2 = md5_cache (final (calculate_md5 H l s)) \<longrightarrow> stat s2 l = Some (File c2) \<longrightarrow>
         calculate_md5 H l s2 = Returned (Some (H c2)) (s2\<lparr>md5_cache := (md5_cache s2)(l \<mapsto> H c2)\<rparr>)"
    using miss same by (simp add: calculate_md5_def open_rb_def)
qed

theorem calculate_md5_cache_witness:
  "calculate_md5 plain_digest (Replica, [''x''])
       ((fresh [] [([], Dir), ([''x''], File ''hi'')])\<lparr>md5_cache := [(Replica, [''x'']) \<mapsto> ''old'']\<rparr>)
     = Returned (Some ''old'')
       ((fresh [] [([], Dir), ([''x''], File ''hi'')])\<lparr>md5_cache := [(Replica, [''x'']) \<mapsto> ''old'']\<rparr>) \<and>
   calculate_md5 plain_digest (Replica, [''x'']) (fresh [] [([], Dir), ([''x''], File ''hi'')])
     = Returned (Some (plain_digest ''hi''))
        ((fresh [] [([], Dir), ([''x''], File ''hi'')])
           \<lparr>md5_cache := (md5_cache (fresh [] [([], Dir), ([''x''], File ''hi'')]))((Replica, [''x'']) \<mapsto> plain_digest ''hi'')\<rparr>) \<and>
   final (calculate_md5 plain_digest (Replica, [''x'']) (fresh [] [([], Dir)])) = fresh [] [([], Dir)]"
proof -
  let ?l = "(Replica, [''x''])"
  let ?s = "fresh [] [([], Dir), ([''x''], File ''hi'')]"
  let ?c = "?s\<lparr>md5_cache := [?l \<mapsto> ''old'']\<rparr>"
  let ?t = "fresh [] [([], Dir)]"
  have hit: "md5_cache ?c ?l = Some ''old''" by simp
  have miss: "md5_cache ?s ?l = None" by simp
  have readable: "stat ?s ?l = Some (File ''hi'')" by simp
  have miss': "md5_cache ?t ?l = None" by simp
  have unreadable: "\<not> is_file (stat ?t ?l)" by (simp add: is_file_def)
  note thm1 = calculate_md5_cache[of ?c ?l "''old''" plain_digest "''hi''"]
  note thm2 = calculate_md5_cache[of ?s ?l "''old''" plain_digest "''hi''"]
  note thm3 = calculate_md5_cache[of ?t ?l "''old''" plain_digest "''hi''"]
  have 1: "calculate_md5 plain_digest ?l ?c = Returned (Some ''old'') ?c"
    by (rule mp[OF conjunct1[OF thm1] hit])
  have 2: "calculate_md5 plain_digest ?l ?s = Returned (Some (plain_digest ''hi''))
        (?s\<lparr>md5_cache := (md5_cache ?s)(?l \<mapsto> plain_digest ''hi'')\<rparr>)"
    by (rule mp[OF mp[OF conjunct1[OF conjunct2[OF thm2]] miss] readable])
  have 3: "final (calculate_md5 plain_digest ?l ?t) = ?t"
    by (rule conjunct1[OF mp[OF mp[OF conjunct2[OF conjunct2[OF thm3]] miss'] unreadable]])
  show ?thesis using 1 2 3 by (intro conjI)
qed




section \<open>Running the model\<close>

text \<open>The exception a statement ends with, if it raises.\<close>

fun raised :: "'a result \<Rightarrow> error option" where
  "raised (Raised e s) = Some e"
| "raised (Returned v s) = None"

text \<open>
  A file that was listed in the source directory and is gone when its turn comes
  (here \<^verbatim>\<open>x\<close>, with and without a file of that name in the replica): its digest is
  \<^verbatim>\<open>None\<close>, which differs from the digest of the replica file, so
  \<^verbatim>\<open>shutil.copy2\<close> is called and raises.
\<close>

theorem vanished_source_file_raises:
  "raised (copy_or_update_file plain_digest [] ''x'' (fresh [([], Dir)] [([], Dir), ([''x''], File ''a'')]))
     = Some (FileNotFoundError (Source, [''x''])) \<and>
   raised (copy_or_update_file plain_digest [] ''x'' (fresh [([], Dir)] [([], Dir)]))
     = Some (FileNotFoundError (Source, [''x'']))"
  by code_simp

text \<open>
  A replica directory \<^verbatim>\<open>d\<close> with a file in it and no mirror in the source: after
  \<^verbatim>\<open>shutil.rmtree\<close> the loop over the files listed before calls \<^verbatim>\<open>os.remove\<close>
  on the file that is gone. The pass ends in the handler and the directory \<^verbatim>\<open>e\<close>,
  which has no mirror either, stays.
\<close>

theorem removed_folder_with_file_aborts:
  "replica_fs (final (sync_folders plain_digest
       (fresh [([], Dir)] [([], Dir), ([''d''], Dir), ([''d'', ''f''], File ''hi''), ([''e''], Dir)])))
     = [([], Dir), ([''e''], Dir)] \<and>
   log_lines (final (sync_folders plain_digest
       (fresh [([], Dir)] [([], Dir), ([''d''], Dir), ([''d'', ''f''], File ''hi''), ([''e''], Dir)])))
     = [RemovedFolder (Replica, [''d'']),
        ErrorDuringSynchronization (FileNotFoundError (Replica, [''d'', ''f'']))]"
  by code_simp

text \<open>
  No source root, and a replica with a file directly below its root: the replica is
  removed, and an error is logged for the file.
\<close>

theorem missing_source_root_reports_error:
  "replica_fs (final (sync_folders plain_digest (fresh [] [([], Dir), ([''g''], File ''x'')]))) = [] \<and>
   log_lines (final (sync_folders plain_digest (fresh [] [([], Dir), ([''g''], File ''x'')])))
     = [RemovedFolder (Replica, []),
        ErrorDuringSynchronization (FileNotFoundError (Replica, [''g'']))]"
  by code_simp

text \<open>
  A file whose content differs in the replica: the first pass fingerprints both
  files and copies; the second pass finds both fingerprints in the cache, still
  different, and copies again. And with neither root there, every pass creates the
  replica root and removes it again.
\<close>

theorem second_pass_copies_again:
  "raised (synchronize plain_digest (fresh [([], Dir), ([''x''], File ''b'')] [([], Dir), ([''x''], File ''a'')])) = None \<and>
   log_lines (final (sync_folders plain_digest
       (fresh [([], Dir), ([''x''], File ''b'')] [([], Dir), ([''x''], File ''a'')])))
     = [CopiedUpdatedFile (Replica, [''x''])] \<and>
   log_lines (final (sync_folders plain_digest (final (sync_folders plain_digest
       (fresh [([], Dir), ([''x''], File ''b'')] [([], Dir), ([''x''], File ''a'')])))))
     = [CopiedUpdatedFile (Replica, [''x'']), CopiedUpdatedFile (Replica, [''x''])] \<and>
   raised (synchronize plain_digest (fresh [] [])) = None \<and>
   log_lines (final (sync_folders plain_digest (fresh [] [])))
     = [CreatedReplicaFolder, RemovedFolder (Replica, [])] \<and>
   log_lines (final (sync_folders plain_digest (final (sync_folders plain_digest (fresh [] [])))))
     = [CreatedReplicaFolder, RemovedFolder (Replica, []),
        CreatedReplicaFolder, RemovedFolder (Replica, [])]"
  by code_simp

text \<open>
  A pass over equal trees caches both fingerprints of \<^verbatim>\<open>x\<close>. When the source file
  is then edited, the next pass compares the cached fingerprints, returns without an
  error and leaves the old content in the replica.
\<close>

theorem stale_cache_hides_update:
  "raised (synchronize plain_digest
      ((final (sync_folders plain_digest (fresh [([], Dir), ([''x''], File ''a'')] [([], Dir), ([''x''], File ''a'')])))
         \<lparr>source_fs := [([], Dir), ([''x''], File ''b'')]\<rparr>)) = None \<and>
   replica_fs (final (sync_folders plain_digest
      ((final (sync_folders plain_digest (fresh [([], Dir), ([''x''], File ''a'')] [([], Dir), ([''x''], File ''a'')])))
         \<lparr>source_fs := [([], Dir), ([''x''], File ''b'')]\<rparr>)))
     = [([], Dir), ([''x''], File ''a'')]"
  by code_simp

text \<open>
  The source holds \<^verbatim>\<open>a/x.txt\<close> and an empty directory \<^verbatim>\<open>b\<close>: the file is copied
  before \<^verbatim>\<open>b\<close> is created.
\<close>

theorem copy_before_folder_creation:
  "log_lines (final (sync_folders plain_digest
       (fresh [([], Dir), ([''a''], Dir), ([''a'', ''x.txt''], File ''hi''), ([''b''], Dir)] [([], Dir)])))
     = [CreatedFolder (Replica, [''a'']), CopiedUpdatedFile (Replica, [''a'', ''x.txt'']),
        CreatedFolder (Replica, [''b''])]"
  by code_simp

text \<open>
  A log file that cannot be opened: the first message of the pass raises, the handler
  logs it and raises again, and the error leaves \<^verbatim>\<open>sync_folders\<close> and \<^verbatim>\<open>run\<close>
  with no record written.
\<close>

theorem unwritable_log_propagates:
  "raised (sync_folders plain_digest ((fresh [([], Dir)] [])\<lparr>log_writable := False\<rparr>)) = Some LogFileError \<and>
   raised (run plain_digest 1 ((fresh [([], Dir)] [])\<lparr>log_writable := False\<rparr>)) = Some LogFileError \<and>
   log_lines (final (sync_folders plain_digest ((fresh [([], Dir)] [])\<lparr>log_writable := False\<rparr>))) = []"
  by code_simp

section \<open>What a pass keeps\<close>

declare copy_phase.simps(2) [simp del] remove_phase.simps(2) [simp del]

lemma copy_phase_keeps:
  assumes "transp R" and "\<And>s. R s s"
    and body: "\<And>H root files s. R s (final (sync_source_dir H root files s))"
  shows "R s (final (copy_phase H stack s))"
proof (induction H stack s rule: copy_phase.induct)
  case (1 H s)
  show ?case by (simp add: assms(2))
next
  case (2 H root stack s)
  show ?case
  proof (cases "scandir s (Source, root)")
    case None
    then show ?thesis using 2(1) by (simp add: copy_phase.simps)
  next
    case (Some x2)
    obtain dirs files where x2: "x2 = (dirs, files)" by (cases x2)
    show ?thesis
    proof (cases "sync_source_dir H root files s")
      case (Raised e s')
      have "R s s'" using body[of s H root files] unfolding Raised by simp
      then show ?thesis using Some x2 Raised by (simp add: copy_phase.simps)
    next
      case (Returned u s')
      have "R s s'" using body[of s H root files] unfolding Returned by simp
      moreover have "R s' (final (copy_phase H (map (\<lambda>d. root @ [d]) dirs @ stack) s'))"
        using 2(2)[OF Some x2[symmetric] Returned] .
      ultimately have "R s (final (copy_phase H (map (\<lambda>d. root @ [d]) dirs @ stack) s'))"
        using assms(1) by (meson transpD)
      then show ?thesis using Some x2 Returned by (simp add: copy_phase.simps)
    qed
  qed
qed

lemma remove_phase_keeps:
  assumes "transp R" and "\<And>s. R s s"
    and body: "\<And>root files s. R s (final (sync_replica_dir root files s))"
  shows "R s (final (remove_phase stack s))"
proof (induction stack s rule: remove_phase.induct)
  case (1 s)
  show ?case by (simp add: assms(2))
next
  case (2 root stack s)
  show ?case
  proof (cases "scandir s (Replica, root)")
    case None
    then show ?thesis using 2(1) by (simp add: remove_phase.simps)
  next
    case (Some x2)
    obtain dirs files where x2: "x2 = (dirs, files)" by (cases x2)
    show ?thesis
    proof (cases "sync_replica_dir root files s")
      case (Raised e s')
      have "R s s'" using body[of s root files] unfolding Raised by simp
      then show ?thesis using Some x2 Raised by (simp add: remove_phase.simps)
    next
      case (Returned u s')
      have "R s s'" using body[of s root files] unfolding Returned by simp
      moreover have "R s' (final (remove_phase (map (\<lambda>d. root @ [d]) dirs @ stack) s'))"
        using 2(2)[OF Some x2[symmetric] Returned] .
      ultimately have "R s (final (remove_phase (map (\<lambda>d. root @ [d]) dirs @ stack) s'))"
        using assms(1) by (meson transpD)
      then show ?thesis using Some x2 Returned by (simp add: remove_phase.simps)
    qed
  qed
qed

lemma copy_phase_same_source: "same_source s (final (copy_phase H stack s))"
  by (rule copy_phase_keeps[OF same_source_transp same_source_refl sync_source_dir_same_source])

lemma remove_phase_same_source: "same_source s (final (remove_phase stack s))"
  by (rule remove_phase_keeps[OF same_source_transp same_source_refl sync_replica_dir_same_source])

lemma synchronize_same_source: "same_source s (final (synchronize H s))"
  unfolding synchronize_def
  by (auto intro!: seq_keeps[of same_source, OF same_source_transp] os_makedirs_same_source
      log_operation_same_source copy_phase_same_source remove_phase_same_source)




subsection \<open>Relations kept by every call the pass makes\<close>

definition kept_by_calls :: "(state \<Rightarrow> state \<Rightarrow> bool) \<Rightarrow> bool" where
  "kept_by_calls R =
     (transp R \<and> (\<forall>s. R s s) \<and>
      (\<forall>m s. R s (final (log_operation m s))) \<and>
      (\<forall>H l s. R s (final (calculate_md5 H l s))) \<and>
      (\<forall>p s. R s (final (os_makedirs (Replica, p) s))) \<and>
      (\<forall>src p s. R s (final (shutil_copy2 src (Replica, p) s))) \<and>
      (\<forall>p s. R s (final (shutil_rmtree (Replica, p) s))) \<and>
      (\<forall>p s. R s (final (os_remove (Replica, p) s))))"

lemma kept_by_callsD:
  assumes "kept_by_calls R"
  shows "transp R" and "R s s"
    and "R s (final (log_operation m s))"
    and "R s (final (calculate_md5 H l s))"
    and "R s (final (os_makedirs (Replica, p) s))"
    and "R s (final (shutil_copy2 src (Replica, p) s))"
    and "R s (final (shutil_rmtree (Replica, p) s))"
    and "R s (final (os_remove (Replica, p) s))"
  using assms unfolding kept_by_calls_def by blast+

lemma if_keeps:
  assumes "c \<Longrightarrow> R s (final a)" and "\<not> c \<Longrightarrow> R s (final b)"
  shows "R s (final (if c then a else b))"
  using assms by (cases c) simp_all

lemma returned_keeps: "R s s \<Longrightarrow> R s (final (Returned v s))"
  by simp

lemma kept_seq:
  assumes "kept_by_calls R"
    and "R s (final r)"
    and "\<And>v s'. r = Returned v s' \<Longrightarrow> R s' (final (k v s'))"
  shows "R s (final (case r of Raised e s' \<Rightarrow> Raised e s' | Returned v s' \<Rightarrow> k v s'))"
  by (intro seq_keeps[of R] assms(2,3) kept_by_callsD(1)[OF assms(1)])

lemma copy_and_log_kept:
  assumes "kept_by_calls R"
  shows "R s (final (copy_and_log src (Replica, p) s))"
  unfolding copy_and_log_def
  by (intro kept_seq[of R] assms kept_by_callsD(3,6)[OF assms])

lemma copy_or_update_file_kept:
  assumes "kept_by_calls R"
  shows "R s (final (copy_or_update_file H root x s))"
proof -
  have md5: "R t (final (calculate_md5 H l t))" for l t
    by (rule kept_by_callsD(4)[OF assms])
  show ?thesis
    unfolding copy_or_update_file_def Let_def
    apply (rule if_keeps[of _ R])
     apply (rule copy_and_log_kept[OF assms])
    apply (rule kept_seq[of R, OF assms])
     apply (rule md5)
    apply (rule kept_seq[of R, OF assms])
     apply (rule md5)
    apply (rule if_keeps[of _ R])
     apply (rule copy_and_log_kept[OF assms])
    apply (rule returned_keeps[of R])
    apply (rule kept_by_callsD(2)[OF assms])
    done
qed

lemma copy_files_kept:
  assumes "kept_by_calls R"
  shows "R s (final (copy_files H root xs s))"
proof (induction xs arbitrary: s)
  case Nil
  show ?case by (simp add: kept_by_callsD(2)[OF assms])
next
  case (Cons x xs)
  show ?case unfolding copy_files.simps
    by (rule kept_seq[of R, OF assms copy_or_update_file_kept[OF assms] Cons])
qed

lemma sync_source_dir_kept:
  assumes "kept_by_calls R"
  shows "R s (final (sync_source_dir H root xs s))"
proof -
  have prims: "R t t" "R t (final (log_operation m t))" "R t (final (os_makedirs (Replica, p) t))" for t m p
    by (rule kept_by_callsD[OF assms])+
  show ?thesis
    unfolding sync_source_dir_def Let_def
    apply (rule kept_seq[of R, OF assms])
     apply (rule if_keeps[of _ R])
      apply (rule kept_seq[of R, OF assms])
       apply (rule prims(3))
      apply (rule prims(2))
     apply (rule returned_keeps[of R])
     apply (rule prims(1))
    apply (rule copy_files_kept[OF assms])
    done
qed

lemma remove_replica_file_kept:
  assumes "kept_by_calls R"
  shows "R s (final (remove_replica_file root x s))"
proof -
  have prims: "R t t" "R t (final (log_operation m t))" "R t (final (os_remove (Replica, p) t))" for t m p
    by (rule kept_by_callsD[OF assms])+
  show ?thesis
    unfolding remove_replica_file_def Let_def
    apply (rule if_keeps[of _ R])
     apply (rule kept_seq[of R, OF assms])
      apply (rule prims(3))
     apply (rule prims(2))
    apply (rule returned_keeps[of R])
    apply (rule prims(1))
    done
qed

lemma remove_files_kept:
  assumes "kept_by_calls R"
  shows "R s (final (remove_files root xs s))"
proof (induction xs arbitrary: s)
  case Nil
  show ?case by (simp add: kept_by_callsD(2)[OF assms])
next
  case (Cons x xs)
  show ?case unfolding remove_files.simps
    by (rule kept_seq[of R, OF assms remove_replica_file_kept[OF assms] Cons])
qed

lemma sync_replica_dir_kept:
  assumes "kept_by_calls R"
  shows "R s (final (sync_replica_dir root xs s))"
proof -
  have prims: "R t t" "R t (final (log_operation m t))" "R t (final (shutil_rmtree (Replica, p) t))" for t m p
    by (rule kept_by_callsD[OF assms])+
  show ?thesis
    unfolding sync_replica_dir_def Let_def
    apply (rule kept_seq[of R, OF assms])
     apply (rule if_keeps[of _ R])
      apply (rule kept_seq[of R, OF assms])
       apply (rule prims(3))
      apply (rule prims(2))
     apply (rule returned_keeps[of R])
     apply (rule prims(1))
    apply (rule remove_files_kept[OF assms])
    done
qed

lemma copy_phase_kept:
  assumes "kept_by_calls R"
  shows "R s (final (copy_phase H stack s))"
proof (rule copy_phase_keeps)
  show "transp R" "\<And>s. R s s" by (rule kept_by_callsD[OF assms])+
  show "\<And>H root files s. R s (final (sync_source_dir H root files s))"
    using assms by (rule sync_source_dir_kept)
qed

lemma remove_phase_kept:
  assumes "kept_by_calls R"
  shows "R s (final (remove_phase stack s))"
proof (rule remove_phase_keeps)
  show "transp R" "\<And>s. R s s" by (rule kept_by_callsD[OF assms])+
  show "\<And>root files s. R s (final (sync_replica_dir root files s))"
    using assms by (rule sync_replica_dir_kept)
qed

lemma synchronize_kept:
  assumes "kept_by_calls R"
  shows "R s (final (synchronize H s))"
proof -
  have prims: "R t t" "R t (final (log_operation m t))" "R t (final (os_makedirs (Replica, p) t))" for t m p
    by (rule kept_by_callsD[OF assms])+
  show ?thesis
    unfolding synchronize_def
    apply (rule kept_seq[of R, OF assms])
     apply (rule if_keeps[of _ R])
      apply (rule kept_seq[of R, OF assms])
       apply (rule prims(3))
      apply (rule prims(2))
     apply (rule returned_keeps[of R])
     apply (rule prims(1))
    apply (rule kept_seq[of R, OF assms])
     apply (rule copy_phase_kept[OF assms])
    apply (rule remove_phase_kept[OF assms])
    done
qed

lemma sync_folders_kept:
  assumes "kept_by_calls R"
  shows "R s (final (sync_folders H s))"
proof (cases "synchronize H s")
  case (Raised e s')
  have "R s s'" using synchronize_kept[OF assms, of s H] unfolding Raised by simp
  moreover have "R s' (final (log_operation (ErrorDuringSynchronization e) s'))"
    by (rule kept_by_callsD[OF assms])
  moreover have "transp R" by (rule kept_by_callsD[OF assms])
  ultimately have "R s (final (log_operation (ErrorDuringSynchronization e) s'))"
    by (meson transpD)
  then show ?thesis using Raised by (simp add: sync_folders_def)
next
  case (Returned u s')
  have "R s s'" using synchronize_kept[OF assms, of s H] unfolding Returned by simp
  then show ?thesis using Returned by (simp add: sync_folders_def)
qed

lemma run_kept:
  assumes "kept_by_calls R"
  shows "R s (final (run H n s))"
proof (induction n arbitrary: s)
  case 0
  show ?case by (simp add: kept_by_callsD(2)[OF assms])
next
  case (Suc n)
  show ?case unfolding run.simps
    by (rule kept_seq[of R, OF assms sync_folders_kept[OF assms] Suc])
qed

definition same_writable :: "state \<Rightarrow> state \<Rightarrow> bool" where
  "same_writable s s' = (log_writable s' = log_writable s)"

lemma same_writable_kept: "kept_by_calls same_writable"
proof -
  have "transp same_writable" by (simp add: transp_def same_writable_def)
  moreover have "same_writable s (final (log_operation m s))" for m s
    by (simp add: log_operation_def same_writable_def)
  moreover have "same_writable s (final (calculate_md5 H l s))" for H l s
    by (simp add: calculate_md5_def same_writable_def split: option.splits sum.splits error.splits)
  moreover have "same_writable s (final (os_makedirs (Replica, p) s))" for p s
    by (simp add: os_makedirs_def Let_def same_writable_def)
  moreover have "same_writable s (final (shutil_copy2 src (Replica, p) s))" for src p s
    by (simp add: shutil_copy2_def Let_def same_writable_def split: sum.splits)
  moreover have "same_writable s (final (shutil_rmtree (Replica, p) s))" for p s
    by (simp add: shutil_rmtree_def same_writable_def split: option.splits node.splits)
  moreover have "same_writable s (final (os_remove (Replica, p) s))" for p s
    by (simp add: os_remove_def same_writable_def split: option.splits node.splits)
  moreover have "same_writable s s" for s by (simp add: same_writable_def)
  ultimately show ?thesis unfolding kept_by_calls_def by (intro conjI allI)
qed

lemma sync_folders_returns:
  assumes "log_writable s"
  shows "\<exists>s'. sync_folders H s = Returned () s' \<and> log_writable s' \<and>
           (\<forall>e s1. synchronize H s = Raised e s1 \<longrightarrow>
              log_lines s' = log_lines s1 @ [ErrorDuringSynchronization e])"
proof (cases "synchronize H s")
  case (Raised e s1)
  have "same_writable s s1"
    using synchronize_kept[OF same_writable_kept, of s H] unfolding Raised by simp
  then have "log_writable s1" using assms by (simp add: same_writable_def)
  then show ?thesis using Raised by (simp add: sync_folders_def log_operation_def)
next
  case (Returned u s1)
  have "same_writable s s1"
    using synchronize_kept[OF same_writable_kept, of s H] unfolding Returned by simp
  then have "log_writable s1" using assms by (simp add: same_writable_def)
  then show ?thesis using Returned by (simp add: sync_folders_def)
qed

lemma run_returns: "log_writable s \<Longrightarrow> raised (run H n s) = None"
proof (induction n arbitrary: s)
  case 0
  show ?case by simp
next
  case (Suc n)
  obtain s' where "sync_folders H s = Returned () s'" and "log_writable s'"
    using sync_folders_returns[OF Suc.prems, of H] by blast
  then show ?case using Suc.IH[of s'] by simp
qed

text \<open>
  Claim C4, amended. When the log file can be opened for appending, every error
  raised during a pass is caught: \<^verbatim>\<open>sync_folders\<close> returns, the log gets one more
  record after those written up to the raise, which holds the error, the log file can
  still be appended to, and no round of \<^verbatim>\<open>run\<close> raises, so the loop goes on.
\<close>

theorem errors_caught_when_log_writable:
  assumes "log_writable s"
  shows "(\<exists>s'. sync_folders H s = Returned () s' \<and> log_writable s' \<and>
            (\<forall>e s1. synchronize H s = Raised e s1 \<longrightarrow>
               log_lines s' = log_lines s1 @ [ErrorDuringSynchronization e])) \<and>
         raised (run H n s) = None"
  using sync_folders_returns[OF assms] run_returns[OF assms] by simp

theorem errors_caught_when_log_writable_witness:
  "log_writable (fresh [([], Dir)] [([], Dir), ([''d''], Dir), ([''d'', ''f''], File ''hi'')]) \<and>
   (\<exists>s'. sync_folders plain_digest (fresh [([], Dir)] [([], Dir), ([''d''], Dir), ([''d'', ''f''], File ''hi'')])
          = Returned () s' \<and> log_writable s' \<and>
      (\<forall>e s1. synchronize plain_digest (fresh [([], Dir)] [([], Dir), ([''d''], Dir), ([''d'', ''f''], File ''hi'')])
            = Raised e s1 \<longrightarrow>
         log_lines s' = log_lines s1 @ [ErrorDuringSynchronization e])) \<and>
   raised (run plain_digest 2 (fresh [([], Dir)] [([], Dir), ([''d''], Dir), ([''d'', ''f''], File ''hi'')])) = None"
  using errors_caught_when_log_writable[of "fresh [([], Dir)] [([], Dir), ([''d''], Dir), ([''d'', ''f''], File ''hi'')]"
      plain_digest 2]
  by simp

section \<open>The order of the records of a pass\<close>

definition is_forward :: "log_record \<Rightarrow> bool" where
  "is_forward r =
     (case r of CreatedReplicaFolder \<Rightarrow> True | CreatedFolder l \<Rightarrow> True
      | CopiedUpdatedFile l \<Rightarrow> True | _ \<Rightarrow> False)"

definition is_removal :: "log_record \<Rightarrow> bool" where
  "is_removal r = (case r of RemovedFolder l \<Rightarrow> True | RemovedFile l \<Rightarrow> True | _ \<Rightarrow> False)"

definition is_copy_into :: "path \<Rightarrow> log_record \<Rightarrow> bool" where
  "is_copy_into root r =
     (case r of CopiedUpdatedFile l \<Rightarrow> fst l = Replica \<and> snd l \<noteq> [] \<and> butlast (snd l) = root
      | _ \<Rightarrow> False)"

text \<open>The statement appends records, all of one kind, and nothing else, to the log.\<close>

definition appends :: "(log_record \<Rightarrow> bool) \<Rightarrow> state \<Rightarrow> state \<Rightarrow> bool" where
  "appends P s s' = (\<exists>new. log_lines s' = log_lines s @ new \<and> list_all P new)"

lemma appends_refl [simp]: "appends P s s"
  by (simp add: appends_def)

lemma appends_transp: "transp (appends P)"
  unfolding transp_def appends_def by fastforce

lemma appends_trans: "appends P s s1 \<Longrightarrow> appends P s1 s2 \<Longrightarrow> appends P s s2"
  using appends_transp[of P] by (meson transpD)

lemma appends_same_log: "log_lines s' = log_lines s \<Longrightarrow> appends P s s'"
  by (simp add: appends_def)

lemma appends_mono: "appends P s s' \<Longrightarrow> (\<And>r. P r \<Longrightarrow> Q r) \<Longrightarrow> appends Q s s'"
  unfolding appends_def by (auto simp: list_all_iff)

lemma log_operation_appends: "P m \<Longrightarrow> appends P s (final (log_operation m s))"
  by (simp add: log_operation_def appends_def)

lemma calculate_md5_log [simp]: "log_lines (final (calculate_md5 H l s)) = log_lines s"
  by (simp add: calculate_md5_def split: option.splits sum.splits error.splits)

lemma os_makedirs_log [simp]: "log_lines (final (os_makedirs l s)) = log_lines s"
  by (simp add: os_makedirs_def Let_def)

lemma shutil_copy2_log [simp]: "log_lines (final (shutil_copy2 src dst s)) = log_lines s"
  by (simp add: shutil_copy2_def Let_def split: sum.splits)

lemma shutil_rmtree_log [simp]: "log_lines (final (shutil_rmtree l s)) = log_lines s"
  by (simp add: shutil_rmtree_def split: option.splits node.splits)

lemma os_remove_log [simp]: "log_lines (final (os_remove l s)) = log_lines s"
  by (simp add: os_remove_def split: option.splits node.splits)

lemma then_log_appends:
  assumes "log_lines (final r) = log_lines s" and "P m"
  shows "appends P s (final (case r of Raised e s' \<Rightarrow> Raised e s'
                                | Returned u s' \<Rightarrow> log_operation m s'))"
proof (rule seq_keeps[of "appends P", OF appends_transp])
  show "appends P s (final r)" using assms(1) by (rule appends_same_log)
  show "appends P s' (final (log_operation m s'))" for s'
    using assms(2) by (rule log_operation_appends)
qed

lemma copy_and_log_appends:
  "P (CopiedUpdatedFile dst) \<Longrightarrow> appends P s (final (copy_and_log src dst s))"
  unfolding copy_and_log_def by (rule then_log_appends) simp_all

lemma copy_or_update_file_appends:
  assumes "P (CopiedUpdatedFile (Replica, root @ [x]))"
  shows "appends P s (final (copy_or_update_file H root x s))"
  unfolding copy_or_update_file_def Let_def
  apply (rule if_keeps[of _ "appends P"])
   apply (rule copy_and_log_appends[of P, OF assms])
  apply (rule seq_keeps[of "appends P", OF appends_transp])
   apply (rule appends_same_log, simp)
  apply (rule seq_keeps[of "appends P", OF appends_transp])
   apply (rule appends_same_log, simp)
  apply (rule if_keeps[of _ "appends P"])
   apply (rule copy_and_log_appends[of P, OF assms])
  apply simp
  done

lemma copy_files_appends:
  assumes "\<And>x. P (CopiedUpdatedFile (Replica, root @ [x]))"
  shows "appends P s (final (copy_files H root xs s))"
proof (induction xs arbitrary: s)
  case Nil
  show ?case by simp
next
  case (Cons x xs)
  show ?case unfolding copy_files.simps
    by (rule seq_keeps[of "appends P", OF appends_transp copy_or_update_file_appends[of P, OF assms] Cons])
qed

lemma is_copy_into_child: "is_copy_into root (CopiedUpdatedFile (Replica, root @ [x]))"
  by (simp add: is_copy_into_def)

text \<open>
  The records of one source directory: its creation in the replica, when it was not
  there, and after it only copies of files into that directory.
\<close>

lemma sync_source_dir_log:
  "\<exists>pre cps. log_lines (final (sync_source_dir H root xs s)) = log_lines s @ pre @ cps \<and>
      (pre = [] \<or> pre = [CreatedFolder (Replica, root)]) \<and> list_all (is_copy_into root) cps"
proof -
  let ?first = "if \<not> os_path_exists s (Replica, root)
     then (case os_makedirs (Replica, root) s of
             Raised e s' \<Rightarrow> Raised e s'
           | Returned u s' \<Rightarrow> log_operation (CreatedFolder (Replica, root)) s')
     else Returned () s"
  have first: "appends (\<lambda>r. r = CreatedFolder (Replica, root)) s (final ?first) \<and>
      length (log_lines (final ?first)) \<le> Suc (length (log_lines s))"
  proof (cases "os_makedirs (Replica, root) s")
    case (Raised e s')
    have "log_lines s' = log_lines s" using os_makedirs_log[of "(Replica, root)" s] unfolding Raised by simp
    then show ?thesis using Raised by (simp add: appends_same_log)
  next
    case (Returned u s')
    have "log_lines s' = log_lines s" using os_makedirs_log[of "(Replica, root)" s] unfolding Returned by simp
    then show ?thesis using Returned by (simp add: appends_def log_operation_def)
  qed
  then obtain pre where pre: "log_lines (final ?first) = log_lines s @ pre"
      "list_all (\<lambda>r. r = CreatedFolder (Replica, root)) pre" "length pre \<le> 1"
    unfolding appends_def by auto
  have pre_cases: "pre = [] \<or> pre = [CreatedFolder (Replica, root)]"
    using pre(2,3) by (cases pre) auto
  have rest: "appends (is_copy_into root) t (final (copy_files H root xs t))" for t
    by (rule copy_files_appends) (rule is_copy_into_child)
  show ?thesis
  proof (cases ?first)
    case (Raised e s')
    then have "final (sync_source_dir H root xs s) = s'" by (simp add: sync_source_dir_def)
    moreover have "log_lines s' = log_lines s @ pre" using pre(1) unfolding Raised by simp
    ultimately have "log_lines (final (sync_source_dir H root xs s)) = log_lines s @ pre @ [] \<and>
        (pre = [] \<or> pre = [CreatedFolder (Replica, root)]) \<and> list_all (is_copy_into root) []"
      using pre_cases by simp
    then show ?thesis by blast
  next
    case (Returned u s')
    then have "final (sync_source_dir H root xs s) = final (copy_files H root xs s')"
      by (simp add: sync_source_dir_def)
    moreover have "log_lines s' = log_lines s @ pre" using pre(1) unfolding Returned by simp
    moreover obtain cps where "log_lines (final (copy_files H root xs s')) = log_lines s' @ cps"
        "list_all (is_copy_into root) cps"
      using rest[of s'] unfolding appends_def by auto
    ultimately have "log_lines (final (sync_source_dir H root xs s)) = log_lines s @ pre @ cps \<and>
        (pre = [] \<or> pre = [CreatedFolder (Replica, root)]) \<and> list_all (is_copy_into root) cps"
      using pre_cases by simp
    then show ?thesis by blast
  qed
qed

lemma sync_source_dir_appends: "appends is_forward s (final (sync_source_dir H root xs s))"
proof -
  obtain pre cps where *: "log_lines (final (sync_source_dir H root xs s)) = log_lines s @ pre @ cps"
      "pre = [] \<or> pre = [CreatedFolder (Replica, root)]" "list_all (is_copy_into root) cps"
    using sync_source_dir_log[of H root xs s] by blast
  have "list_all is_forward pre" using *(2) by (auto simp: is_forward_def)
  moreover have "list_all is_forward cps"
    using *(3) by (auto simp: list_all_iff is_copy_into_def is_forward_def split: log_record.splits)
  ultimately show ?thesis using *(1) unfolding appends_def by auto
qed

lemma copy_phase_appends: "appends is_forward s (final (copy_phase H stack s))"
  by (rule copy_phase_keeps[of "appends is_forward", OF appends_transp appends_refl sync_source_dir_appends])

lemma remove_replica_file_appends: "appends is_removal s (final (remove_replica_file root x s))"
  unfolding remove_replica_file_def Let_def
  apply (rule if_keeps[of _ "appends is_removal"])
   apply (rule then_log_appends, simp, simp add: is_removal_def)
  apply simp
  done

lemma remove_files_appends: "appends is_removal s (final (remove_files root xs s))"
proof (induction xs arbitrary: s)
  case Nil
  show ?case by simp
next
  case (Cons x xs)
  show ?case unfolding remove_files.simps
    by (rule seq_keeps[of "appends is_removal", OF appends_transp remove_replica_file_appends Cons])
qed

lemma sync_replica_dir_appends: "appends is_removal s (final (sync_replica_dir root xs s))"
  unfolding sync_replica_dir_def Let_def
  apply (rule seq_keeps[of "appends is_removal", OF appends_transp])
   apply (rule if_keeps[of _ "appends is_removal"])
    apply (rule then_log_appends, simp, simp add: is_removal_def)
   apply simp
  apply (rule remove_files_appends)
  done

lemma remove_phase_appends: "appends is_removal s (final (remove_phase stack s))"
  by (rule remove_phase_keeps[of "appends is_removal", OF appends_transp appends_refl sync_replica_dir_appends])

lemma two_phases:
  assumes "appends is_forward s s1" and "appends is_removal s1 s2"
  shows "\<exists>fwd rev. log_lines s2 = log_lines s @ fwd @ rev \<and>
      list_all is_forward fwd \<and> list_all is_removal rev"
proof -
  obtain fwd where fwd: "log_lines s1 = log_lines s @ fwd" "list_all is_forward fwd"
    using assms(1) unfolding appends_def by blast
  obtain rev where rev: "log_lines s2 = log_lines s1 @ rev" "list_all is_removal rev"
    using assms(2) unfolding appends_def by blast
  have "log_lines s2 = log_lines s @ fwd @ rev" using fwd(1) rev(1) by simp
  then show ?thesis using fwd(2) rev(2) by blast
qed

lemma synchronize_log:
  "\<exists>fwd rev. log_lines (final (synchronize H s)) = log_lines s @ fwd @ rev \<and>
      list_all is_forward fwd \<and> list_all is_removal rev"
proof -
  let ?first = "if \<not> os_path_exists s (Replica, [])
            then (case os_makedirs (Replica, []) s of
                    Raised e s' \<Rightarrow> Raised e s'
                  | Returned u s' \<Rightarrow> log_operation CreatedReplicaFolder s')
            else Returned () s"
  have first: "appends is_forward s (final ?first)"
    apply (rule if_keeps[of _ "appends is_forward"])
     apply (rule then_log_appends, simp, simp add: is_forward_def)
    apply simp
    done
  show ?thesis
  proof (cases ?first)
    case (Raised e s1)
    then have "final (synchronize H s) = s1" by (simp add: synchronize_def)
    moreover have "appends is_forward s s1" using first unfolding Raised by simp
    ultimately show ?thesis using two_phases[of s s1 s1] by simp
  next
    case first_ok: (Returned u s1)
    have s1: "appends is_forward s s1" using first unfolding first_ok by simp
    show ?thesis
    proof (cases "copy_phase H [[]] s1")
      case (Raised e s2)
      then have "final (synchronize H s) = s2" using first_ok by (simp add: synchronize_def)
      moreover have "appends is_forward s1 s2" using copy_phase_appends[of s1 H "[[]]"] unfolding Raised by simp
      then have "appends is_forward s s2" by (rule appends_trans[OF s1])
      ultimately show ?thesis using two_phases[of s s2 s2] by simp
    next
      case (Returned u2 s2)
      then have "final (synchronize H s) = final (remove_phase [[]] s2)"
        using first_ok by (simp add: synchronize_def)
      moreover have "appends is_forward s1 s2" using copy_phase_appends[of s1 H "[[]]"] unfolding Returned by simp
      then have "appends is_forward s s2" by (rule appends_trans[OF s1])
      moreover have "appends is_removal s2 (final (remove_phase [[]] s2))" by (rule remove_phase_appends)
      ultimately show ?thesis using two_phases[of s s2 "final (remove_phase [[]] s2)"] by simp
    qed
  qed
qed

text \<open>
  Claim C9, amended. The records one pass appends to the log are, in this order:
  records of directory creations and file copies (the first walk), then records of
  removals (the second walk), then at most one error record. Within the first walk
  the records of one source directory are the creation of its replica directory,
  when that was missing, followed only by copies of files into that directory: the
  directory a file is copied into exists before the copy. Creations and copies of
  different directories alternate.
\<close>

theorem pass_records_in_order:
  "(\<exists>fwd rev err. log_lines (final (sync_folders H s)) = log_lines s @ fwd @ rev @ err \<and>
       list_all is_forward fwd \<and> list_all is_removal rev \<and>
       (err = [] \<or> (\<exists>e. err = [ErrorDuringSynchronization e]))) \<and>
   (\<exists>pre cps. log_lines (final (sync_source_dir H root xs t)) = log_lines t @ pre @ cps \<and>
       (pre = [] \<or> pre = [CreatedFolder (Replica, root)]) \<and> list_all (is_copy_into root) cps)"
proof
  obtain fwd rev where *: "log_lines (final (synchronize H s)) = log_lines s @ fwd @ rev"
      "list_all is_forward fwd" "list_all is_removal rev"
    using synchronize_log[of H s] by blast
  show "\<exists>fwd rev err. log_lines (final (sync_folders H s)) = log_lines s @ fwd @ rev @ err \<and>
       list_all is_forward fwd \<and> list_all is_removal rev \<and>
       (err = [] \<or> (\<exists>e. err = [ErrorDuringSynchronization e]))"
  proof (cases "synchronize H s")
    case (Raised e s')
    have "log_lines (final (sync_folders H s)) = log_lines s' @ [ErrorDuringSynchronization e]
        \<or> log_lines (final (sync_folders H s)) = log_lines s'"
      using Raised by (simp add: sync_folders_def log_operation_def)
    moreover have "log_lines s' = log_lines s @ fwd @ rev" using *(1) unfolding Raised by simp
    ultimately show ?thesis using *(2,3) by (metis append.assoc append_Nil2)
  next
    case (Returned u s')
    then have "log_lines (final (sync_folders H s)) = log_lines s'" by (simp add: sync_folders_def)
    moreover have "log_lines s' = log_lines s @ fwd @ rev" using *(1) unfolding Returned by simp
    ultimately show ?thesis using *(2,3) by (metis append_Nil2)
  qed
  show "\<exists>pre cps. log_lines (final (sync_source_dir H root xs t)) = log_lines t @ pre @ cps \<and>
       (pre = [] \<or> pre = [CreatedFolder (Replica, root)]) \<and> list_all (is_copy_into root) cps"
    by (rule sync_source_dir_log)
qed

section \<open>What each call does to the trees and the cache\<close>

abbreviation src :: "state \<Rightarrow> path \<Rightarrow> node option" where
  "src s p \<equiv> stat s (Source, p)"

abbreviation rep :: "state \<Rightarrow> path \<Rightarrow> node option" where
  "rep s p \<equiv> stat s (Replica, p)"

lemma map_of_fold_update:
  "map_of (fold (\<lambda>q. AList.update q v) qs f) k = (if k \<in> set qs then Some v else map_of f k)"
  by (induction qs arbitrary: f) (simp_all add: update_conv')

lemma map_of_filter_key:
  "map_of (filter (\<lambda>e. P (fst e)) f) k = (if P k then map_of f k else None)"
  by (induction f) auto

lemma set_children: "set (children f r) = {n. map_of f (r @ [n]) \<noteq> None}"
proof -
  have "n \<in> set (children f r) \<longleftrightarrow> r @ [n] \<in> fst ` set f" for n
  proof
    assume "n \<in> set (children f r)"
    then obtain e where e: "e \<in> set f" "fst e \<noteq> []" "butlast (fst e) = r" "last (fst e) = n"
      by (auto simp: children_def)
    then have "fst e = r @ [n]" using append_butlast_last_id[of "fst e"] by simp
    then show "r @ [n] \<in> fst ` set f" using e(1) by force
  next
    assume "r @ [n] \<in> fst ` set f"
    then obtain e where "e \<in> set f" "fst e = r @ [n]" by auto
    then show "n \<in> set (children f r)" by (force simp: children_def)
  qed
  then show ?thesis by (auto simp: map_of_eq_None_iff)
qed

lemma stat_put_fs [simp]:
  "stat (put_fs t f s) l = (if fst l = t then map_of f (snd l) else stat s l)"
  by (simp add: stat_def)

lemma stat_fields [simp]:
  "stat (s\<lparr>md5_cache := m\<rparr>) l = stat s l"
  "stat (s\<lparr>log_lines := ls\<rparr>) l = stat s l"
  by (simp_all add: stat_def del: fs_of_simps)

lemma scandir_None: "scandir s l = None \<longleftrightarrow> stat s l \<noteq> Some Dir"
  by (simp add: scandir_def Let_def)

lemma scandir_Some:
  assumes "scandir s (t, r) = Some (dirs, files)"
  shows "stat s (t, r) = Some Dir"
    and "set dirs = {n. stat s (t, r @ [n]) = Some Dir}"
    and "set files = {n. \<exists>c. stat s (t, r @ [n]) = Some (File c)}"
proof -
  show dir: "stat s (t, r) = Some Dir"
    using assms by (simp add: scandir_def Let_def split: if_splits)
  have ns: "set (children (fs_of s t) r) = {n. stat s (t, r @ [n]) \<noteq> None}"
    by (simp add: set_children stat_def del: fs_of_simps)
  have dirs: "dirs = filter (\<lambda>n. stat s (t, r @ [n]) = Some Dir) (children (fs_of s t) r)"
    and files: "files = filter (\<lambda>n. stat s (t, r @ [n]) \<noteq> Some Dir) (children (fs_of s t) r)"
    using assms dir by (simp_all add: scandir_def Let_def del: fs_of_simps)
  show "set dirs = {n. stat s (t, r @ [n]) = Some Dir}"
    unfolding dirs using ns by auto
  show "set files = {n. \<exists>c. stat s (t, r @ [n]) = Some (File c)}"
  proof -
    have "stat s (t, r @ [n]) \<noteq> None \<and> stat s (t, r @ [n]) \<noteq> Some Dir
        \<longleftrightarrow> (\<exists>c. stat s (t, r @ [n]) = Some (File c))" for n
      by (cases "stat s (t, r @ [n])") (auto intro: node.exhaust)
    then show ?thesis unfolding files using ns by auto
  qed
qed

lemma log_operation_Returned:
  assumes "log_operation m s = Returned u s'"
  shows "stat s' = stat s" and "md5_cache s' = md5_cache s"
  using assms by (auto simp: log_operation_def split: if_splits)

lemma os_makedirs_Returned:
  assumes "os_makedirs (t, p) s = Returned u s'"
  shows "stat s' (t', q) = (if t' = t \<and> prefix q p then Some Dir else stat s (t', q))"
    and "md5_cache s' = md5_cache s"
    and "stat s (t, p) = None"
  using assms
  by (auto simp: os_makedirs_def Let_def map_of_fold_update stat_def simp del: fs_of_simps
      split: if_splits)

lemma shutil_copy2_Returned:
  assumes "shutil_copy2 from (t, p) s = Returned u s'" and "stat s (t, p) \<noteq> Some Dir"
  shows "\<exists>c. stat s from = Some (File c) \<and>
            (\<forall>l. stat s' l = (if l = (t, p) then Some (File c) else stat s l))"
    and "md5_cache s' = md5_cache s"
    and "p \<noteq> [] \<Longrightarrow> stat s (t, butlast p) = Some Dir"
  using assms
  by (auto simp: shutil_copy2_def open_rb_def Let_def update_conv' stat_def prod_eq_iff
      simp del: fs_of_simps split: if_splits option.splits node.splits sum.splits)

lemma shutil_rmtree_Returned:
  assumes "shutil_rmtree (t, p) s = Returned u s'"
  shows "stat s' (t', q) = (if t' = t \<and> prefix p q then None else stat s (t', q))"
    and "md5_cache s' = md5_cache s"
    and "stat s (t, p) = Some Dir"
  using assms
  by (auto simp: shutil_rmtree_def stat_def map_of_filter_key[where P="\<lambda>k. \<not> prefix p k"]
      simp del: fs_of_simps split: option.splits node.splits)

lemma os_remove_Returned:
  assumes "os_remove (t, p) s = Returned u s'"
  shows "stat s' (t', q) = (if t' = t \<and> q = p then None else stat s (t', q))"
    and "md5_cache s' = md5_cache s"
    and "\<exists>c. stat s (t, p) = Some (File c)"
  using assms
  by (auto simp: os_remove_def stat_def map_of_filter_key[where P="\<lambda>k. k \<noteq> p"]
      simp del: fs_of_simps split: option.splits node.splits)

lemma calculate_md5_Returned:
  assumes "calculate_md5 H l s = Returned d s'"
  shows "stat s' = stat s"
    and "(d = None \<and> s' = s \<and> md5_cache s l = None \<and> stat s l = None) \<or>
         (\<exists>d0. d = Some d0 \<and> md5_cache s' = (md5_cache s)(l \<mapsto> d0) \<and>
            (md5_cache s l = Some d0 \<or>
             md5_cache s l = None \<and> (\<exists>c. stat s l = Some (File c) \<and> d0 = H c)))"
proof -
  show "stat s' = stat s"
    using assms
    by (auto simp: calculate_md5_def open_rb_def split: option.splits node.splits sum.splits error.splits)
  show "(d = None \<and> s' = s \<and> md5_cache s l = None \<and> stat s l = None) \<or>
         (\<exists>d0. d = Some d0 \<and> md5_cache s' = (md5_cache s)(l \<mapsto> d0) \<and>
            (md5_cache s l = Some d0 \<or>
             md5_cache s l = None \<and> (\<exists>c. stat s l = Some (File c) \<and> d0 = H c)))"
  proof (cases "md5_cache s l")
    case (Some d0)
    then have "d = Some d0" "s' = s" using assms by (simp_all add: calculate_md5_def)
    moreover have "(md5_cache s)(l \<mapsto> d0) = md5_cache s" using Some by (simp add: fun_upd_idem)
    ultimately show ?thesis using Some by simp
  next
    case None
    then show ?thesis
      using assms
      by (cases "stat s l")
         (auto simp: calculate_md5_def open_rb_def split: node.splits)
  qed
qed

section \<open>Convergence\<close>

text \<open>
  A tree is well formed when its root, if there is one, is a directory and every
  other entry lies in a directory. \<open>wf_fs\<close> checks it on the table.
\<close>

definition wf_fs :: "fs \<Rightarrow> bool" where
  "wf_fs f =
     list_all (\<lambda>e. map_of f [] = Some Dir \<and> (fst e = [] \<or> map_of f (butlast (fst e)) = Some Dir)) f"

definition well_formed :: "state \<Rightarrow> tree \<Rightarrow> bool" where
  "well_formed s t =
     (\<forall>q. stat s (t, q) \<noteq> None \<longrightarrow>
        stat s (t, []) = Some Dir \<and> (q \<noteq> [] \<longrightarrow> stat s (t, butlast q) = Some Dir))"

lemma wf_fs_well_formed: "wf_fs (fs_of s t) \<Longrightarrow> well_formed s t"
  unfolding wf_fs_def well_formed_def stat_def list_all_iff
  by (auto simp: map_of_eq_None_iff simp del: fs_of_simps)

lemma well_formed_prefix:
  assumes "well_formed s t" and "stat s (t, q) \<noteq> None" and "strict_prefix r q"
  shows "stat s (t, r) = Some Dir"
  using assms(2,3)
proof (induction q rule: rev_induct)
  case Nil
  then show ?case by simp
next
  case (snoc x q)
  have parent: "stat s (t, q) = Some Dir"
    using assms(1) snoc.prems(1) unfolding well_formed_def by (metis butlast_snoc snoc_eq_iff_butlast)
  show ?case
  proof (cases "r = q")
    case True
    then show ?thesis using parent by simp
  next
    case False
    then have "strict_prefix r q" using snoc.prems(2) by (metis prefix_snoc strict_prefix_def)
    then show ?thesis using snoc.IH parent by simp
  qed
qed

text \<open>
  The file at \<open>p\<close> of the source, if there is one, has a file with the same
  fingerprint at \<open>p\<close> in the replica.
\<close>

definition mirrored :: "(content \<Rightarrow> digest) \<Rightarrow> state \<Rightarrow> path \<Rightarrow> bool" where
  "mirrored H s p =
     (\<forall>c. src s p = Some (File c) \<longrightarrow> (\<exists>c'. rep s p = Some (File c') \<and> H c' = H c))"

text \<open>
  Every cached fingerprint is that of the file now at its path. During a pass a
  replica file that has just been copied may have the fingerprint of its old content
  in the cache: \<open>cache_safe\<close> allows that.
\<close>

definition cache_ok :: "(content \<Rightarrow> digest) \<Rightarrow> state \<Rightarrow> bool" where
  "cache_ok H s = (\<forall>l d. md5_cache s l = Some d \<longrightarrow> (\<exists>c. stat s l = Some (File c) \<and> H c = d))"

definition cache_safe :: "(content \<Rightarrow> digest) \<Rightarrow> state \<Rightarrow> bool" where
  "cache_safe H s =
     ((\<forall>p d. md5_cache s (Source, p) = Some d \<longrightarrow> (\<exists>c. src s p = Some (File c) \<and> H c = d)) \<and>
      (\<forall>p d. md5_cache s (Replica, p) = Some d \<longrightarrow>
          (\<exists>c. rep s p = Some (File c) \<and> (H c = d \<or> src s p = Some (File c)))))"

lemma cache_ok_safe: "cache_ok H s \<Longrightarrow> cache_safe H s"
  unfolding cache_ok_def cache_safe_def by blast

lemma cache_safe_sourceD:
  "cache_safe H s \<Longrightarrow> md5_cache s (Source, p) = Some d \<Longrightarrow> src s p = Some (File c) \<Longrightarrow> d = H c"
  unfolding cache_safe_def by fastforce

lemma cache_safe_replicaD:
  "cache_safe H s \<Longrightarrow> md5_cache s (Replica, p) = Some d \<Longrightarrow>
     \<exists>c. rep s p = Some (File c) \<and> (H c = d \<or> src s p = Some (File c))"
  unfolding cache_safe_def by blast

lemma cache_safe_after_copy:
  assumes safe: "cache_safe H s"
    and st: "\<forall>l. stat s' l = (if l = (Replica, p) then Some (File c) else stat s l)"
    and cache: "md5_cache s' = md5_cache s"
    and isfile: "src s p = Some (File c)"
  shows "cache_safe H s'"
  unfolding cache_safe_def
proof (intro conjI allI impI)
  fix q d
  assume "md5_cache s' (Source, q) = Some d"
  then have "\<exists>c. src s q = Some (File c) \<and> H c = d"
    using safe cache unfolding cache_safe_def by simp
  then show "\<exists>c. src s' q = Some (File c) \<and> H c = d" using st by simp
next
  fix q d
  assume cached: "md5_cache s' (Replica, q) = Some d"
  show "\<exists>c. rep s' q = Some (File c) \<and> (H c = d \<or> src s' q = Some (File c))"
  proof (cases "q = p")
    case True
    then show ?thesis using st isfile by simp
  next
    case False
    have "\<exists>c. rep s q = Some (File c) \<and> (H c = d \<or> src s q = Some (File c))"
      using safe cache cached unfolding cache_safe_def by simp
    then show ?thesis using st False by simp
  qed
qed

lemma copy_and_log_Returned:
  assumes "copy_and_log from (t, p) s = Returned u s'" and "stat s (t, p) \<noteq> Some Dir"
  shows "\<exists>c. stat s from = Some (File c) \<and>
            (\<forall>l. stat s' l = (if l = (t, p) then Some (File c) else stat s l))"
    and "md5_cache s' = md5_cache s"
    and "p \<noteq> [] \<Longrightarrow> stat s (t, butlast p) = Some Dir"
proof -
  obtain u1 s1 where copy: "shutil_copy2 from (t, p) s = Returned u1 s1"
    and log: "log_operation (CopiedUpdatedFile (t, p)) s1 = Returned u s'"
    using assms(1) by (auto simp: copy_and_log_def split: result.splits)
  note c = shutil_copy2_Returned[OF copy assms(2)]
  note l = log_operation_Returned[OF log]
  show "\<exists>c. stat s from = Some (File c) \<and>
            (\<forall>l. stat s' l = (if l = (t, p) then Some (File c) else stat s l))"
    using c(1) l(1) by simp
  show "md5_cache s' = md5_cache s" using c(2) l(2) by simp
  show "p \<noteq> [] \<Longrightarrow> stat s (t, butlast p) = Some Dir" using c(3) by simp
qed

text \<open>What the body of the file loop does when it returns, for a file of the source.\<close>

lemma copy_or_update_file_Returned:
  assumes run: "copy_or_update_file H r x s = Returned u s'"
    and safe: "cache_safe H s"
    and isfile: "src s (r @ [x]) = Some (File c)"
  shows "\<forall>q. src s' q = src s q"
    and "\<forall>q. q \<noteq> r @ [x] \<longrightarrow> rep s' q = rep s q"
    and "rep s' (r @ [x]) = rep s (r @ [x]) \<or>
         rep s r = Some Dir \<and> rep s (r @ [x]) \<noteq> Some Dir \<and> rep s' (r @ [x]) = Some (File c)"
    and "mirrored H s' (r @ [x])"
    and "cache_safe H s'"
proof -
  let ?p = "r @ [x]"
  have goal: "(\<forall>q. src s' q = src s q) \<and> (\<forall>q. q \<noteq> ?p \<longrightarrow> rep s' q = rep s q) \<and>
      (rep s' ?p = rep s ?p \<or>
         rep s r = Some Dir \<and> rep s ?p \<noteq> Some Dir \<and> rep s' ?p = Some (File c)) \<and>
      mirrored H s' ?p \<and> cache_safe H s'"
  proof (cases "os_path_exists s (Replica, ?p)")
    case False
    then have absent: "rep s ?p = None" by (simp add: os_path_exists_def)
    have copy: "copy_and_log (Source, ?p) (Replica, ?p) s = Returned u s'"
      using run False by (simp add: copy_or_update_file_def Let_def)
    have nd: "rep s ?p \<noteq> Some Dir" using absent by simp
    note e = copy_and_log_Returned[OF copy nd]
    have st: "\<forall>l. stat s' l = (if l = (Replica, ?p) then Some (File c) else stat s l)"
      using e(1) isfile by simp
    have "mirrored H s' ?p" using st isfile by (simp add: mirrored_def)
    moreover have "cache_safe H s'"
      using safe st e(2) isfile by (rule cache_safe_after_copy)
    moreover have "rep s r = Some Dir" using e(3) by simp
    ultimately show ?thesis using st nd by simp
  next
    case True
    then have present: "rep s ?p \<noteq> None" by (simp add: os_path_exists_def)
    obtain d1 s1 where m1: "calculate_md5 H (Source, ?p) s = Returned d1 s1"
      using run True by (auto simp: copy_or_update_file_def Let_def split: result.splits)
    obtain d2 s2 where m2: "calculate_md5 H (Replica, ?p) s1 = Returned d2 s2"
      using run True m1 by (auto simp: copy_or_update_file_def Let_def split: result.splits)
    have rest: "(if d1 \<noteq> d2 then copy_and_log (Source, ?p) (Replica, ?p) s2 else Returned () s2)
        = Returned u s'"
      using run True m1 m2 by (simp add: copy_or_update_file_def Let_def)
    note e1 = calculate_md5_Returned[OF m1]
    note e2 = calculate_md5_Returned[OF m2]
    obtain d0 where d0: "d1 = Some d0" "md5_cache s1 = (md5_cache s)((Source, ?p) \<mapsto> d0)"
        "md5_cache s (Source, ?p) = Some d0 \<or>
         md5_cache s (Source, ?p) = None \<and> (\<exists>c. src s ?p = Some (File c) \<and> d0 = H c)"
      using e1(2) isfile by auto
    have "d0 = H c" using d0(3) cache_safe_sourceD[OF safe _ isfile] isfile by auto
    then have d1: "d1 = Some (H c)" and c1: "md5_cache s1 = (md5_cache s)((Source, ?p) \<mapsto> H c)"
      using d0(1,2) by simp_all
    have st2: "stat s2 = stat s" using e1(1) e2(1) by simp
    obtain e0 where d2: "d2 = Some e0"
      and c2: "md5_cache s2 = (md5_cache s1)((Replica, ?p) \<mapsto> e0)"
      and how: "md5_cache s1 (Replica, ?p) = Some e0 \<or>
          md5_cache s1 (Replica, ?p) = None \<and> (\<exists>c'. stat s1 (Replica, ?p) = Some (File c') \<and> e0 = H c')"
      using e2(2) present e1(1) by auto
    obtain c' where old: "rep s ?p = Some (File c')" and fp: "H c' = e0 \<or> c' = c"
    proof (cases "md5_cache s1 (Replica, ?p)")
      case None
      then show ?thesis using how e1(1) that by auto
    next
      case (Some a)
      then have "md5_cache s (Replica, ?p) = Some e0" using how c1 by simp
      then obtain c0 where "rep s ?p = Some (File c0)" "H c0 = e0 \<or> src s ?p = Some (File c0)"
        using cache_safe_replicaD[OF safe] by blast
      then show ?thesis using isfile that by auto
    qed
    have safe2: "cache_safe H s2"
      unfolding cache_safe_def
    proof (intro conjI allI impI)
      fix q d
      assume "md5_cache s2 (Source, q) = Some d"
      then have "q = ?p \<and> d = H c \<or> md5_cache s (Source, q) = Some d"
        using c1 c2 by (auto split: if_splits)
      then show "\<exists>c. src s2 q = Some (File c) \<and> H c = d"
        using isfile st2 safe unfolding cache_safe_def by auto
    next
      fix q d
      assume "md5_cache s2 (Replica, q) = Some d"
      then have "q = ?p \<and> d = e0 \<or> md5_cache s (Replica, q) = Some d"
        using c1 c2 by (auto split: if_splits)
      then show "\<exists>c. rep s2 q = Some (File c) \<and> (H c = d \<or> src s2 q = Some (File c))"
        using cache_safe_replicaD[OF safe, of q d] old fp isfile st2 by auto
    qed
    show ?thesis
    proof (cases "d1 = d2")
      case True
      then have "s' = s2" using rest by simp
      moreover have "mirrored H s2 ?p"
        using st2 isfile old fp True d1 d2 by (auto simp: mirrored_def)
      ultimately show ?thesis using st2 safe2 by simp
    next
      case False
      then have copy: "copy_and_log (Source, ?p) (Replica, ?p) s2 = Returned u s'"
        using rest by simp
      have nd: "rep s2 ?p \<noteq> Some Dir" using st2 old by simp
      note e = copy_and_log_Returned[OF copy nd]
      have st: "\<forall>l. stat s' l = (if l = (Replica, ?p) then Some (File c) else stat s l)"
        using e(1) isfile st2 by simp
      have "mirrored H s' ?p" using st isfile by (simp add: mirrored_def)
      moreover have "cache_safe H s'"
      proof (rule cache_safe_after_copy[OF safe2 _ e(2)])
        show "\<forall>l. stat s' l = (if l = (Replica, ?p) then Some (File c) else stat s2 l)"
          using st st2 by simp
        show "src s2 ?p = Some (File c)" using isfile st2 by simp
      qed
      moreover have "rep s r = Some Dir" using e(3) st2 by simp
      ultimately show ?thesis using st old by simp
    qed
  qed
  show "\<forall>q. src s' q = src s q"
    and "\<forall>q. q \<noteq> r @ [x] \<longrightarrow> rep s' q = rep s q"
    and "rep s' (r @ [x]) = rep s (r @ [x]) \<or>
         rep s r = Some Dir \<and> rep s (r @ [x]) \<noteq> Some Dir \<and> rep s' (r @ [x]) = Some (File c)"
    and "mirrored H s' (r @ [x])"
    and "cache_safe H s'"
    using goal by blast+
qed

lemma os_makedirs_no_file:
  assumes "os_makedirs (t, p) s = Returned u s'" and "prefix q p"
  shows "stat s (t, q) = None \<or> stat s (t, q) = Some Dir"
proof -
  have "\<not> list_ex (\<lambda>q. is_file (map_of (fs_of s t) q)) (prefixes p)"
    using assms(1) by (auto simp: os_makedirs_def Let_def simp del: fs_of_simps split: if_splits)
  then have "\<not> is_file (stat s (t, q))"
    using assms(2) by (auto simp: list_ex_iff stat_def simp del: fs_of_simps)
  then show ?thesis
    by (cases "stat s (t, q)") (auto simp: is_file_def split: node.splits)
qed

text \<open>
  A path is settled when the file of the source there, if there is one, is mirrored
  and when whatever the source has there, the replica has something there too.
\<close>

definition settled :: "(content \<Rightarrow> digest) \<Rightarrow> state \<Rightarrow> path \<Rightarrow> bool" where
  "settled H s p = (mirrored H s p \<and> (src s p \<noteq> None \<longrightarrow> rep s p \<noteq> None))"

lemma settled_cong:
  "src s' p = src s p \<Longrightarrow> rep s' p = rep s p \<Longrightarrow> settled H s' p = settled H s p"
  by (simp add: settled_def mirrored_def)

lemma settled_absent: "src s p = None \<Longrightarrow> settled H s p"
  by (simp add: settled_def mirrored_def)

lemma settled_file: "mirrored H s p \<Longrightarrow> src s p = Some (File c) \<Longrightarrow> settled H s p"
  by (auto simp: settled_def mirrored_def)

lemma settled_dir: "src s p = Some Dir \<Longrightarrow> rep s p \<noteq> None \<Longrightarrow> settled H s p"
  by (simp add: settled_def mirrored_def)

text \<open>The facts that the first walk hands from one step to the next.\<close>

definition forward_step :: "(content \<Rightarrow> digest) \<Rightarrow> state \<Rightarrow> state \<Rightarrow> bool" where
  "forward_step H s s' =
     ((\<forall>q. src s' q = src s q) \<and>
      (\<forall>q. rep s q \<noteq> None \<longrightarrow> rep s' q \<noteq> None) \<and>
      (\<forall>q. settled H s q \<longrightarrow> settled H s' q) \<and>
      cache_safe H s' \<and> well_formed s' Replica)"

lemma forward_step_trans:
  "forward_step H s s1 \<Longrightarrow> forward_step H s1 s2 \<Longrightarrow> forward_step H s s2"
  unfolding forward_step_def by simp

lemma copy_or_update_file_step:
  assumes run: "copy_or_update_file H r x s = Returned u s'"
    and safe: "cache_safe H s" and wf: "well_formed s Replica"
    and isfile: "src s (r @ [x]) = Some (File c)"
  shows "forward_step H s s'" and "settled H s' (r @ [x])"
proof -
  note e = copy_or_update_file_Returned[OF run safe isfile]
  have "src s' (r @ [x]) = Some (File c)" using e(1) isfile by simp
  then show m: "settled H s' (r @ [x])" using e(4) by (rule settled_file[rotated])
  have keep: "settled H s q \<longrightarrow> settled H s' q" for q
  proof (cases "q = r @ [x]")
    case True
    then show ?thesis using m by simp
  next
    case False
    then show ?thesis using e(1,2) settled_cong[of s' q s H] by simp
  qed
  have grow: "rep s q \<noteq> None \<longrightarrow> rep s' q \<noteq> None" for q
  proof (cases "q = r @ [x]")
    case True
    then show ?thesis using e(3) by auto
  next
    case False
    then show ?thesis using e(2) by simp
  qed
  have wf': "well_formed s' Replica"
  proof (cases "rep s' (r @ [x]) = rep s (r @ [x])")
    case True
    then have "rep s' q = rep s q" for q using e(2) by (cases "q = r @ [x]") simp_all
    then show ?thesis using wf unfolding well_formed_def by simp
  next
    case False
    then have parent: "rep s r = Some Dir" and nd: "rep s (r @ [x]) \<noteq> Some Dir"
      and new: "rep s' (r @ [x]) = Some (File c)"
      using e(3) by simp_all
    have root: "rep s [] = Some Dir" using wf parent unfolding well_formed_def by force
    show ?thesis
      unfolding well_formed_def
    proof (intro allI impI conjI)
      fix q
      assume ex: "rep s' q \<noteq> None"
      show "rep s' [] = Some Dir" using root e(2) by simp
      assume ne: "q \<noteq> []"
      show "rep s' (butlast q) = Some Dir"
      proof (cases "q = r @ [x]")
        case True
        then show ?thesis using parent e(2) by simp
      next
        case False
        then have "rep s q \<noteq> None" using ex e(2) by simp
        then have p: "rep s (butlast q) = Some Dir" using wf ne unfolding well_formed_def by simp
        then have "butlast q \<noteq> r @ [x]" using nd by auto
        then show ?thesis using p e(2) by simp
      qed
    qed
  qed
  show "forward_step H s s'"
    unfolding forward_step_def using e(1,5) keep grow wf' by simp
qed

lemma copy_files_step:
  assumes "copy_files H r xs s = Returned u s'"
    and "cache_safe H s" and "well_formed s Replica"
    and "\<forall>x \<in> set xs. \<exists>c. src s (r @ [x]) = Some (File c)"
  shows "forward_step H s s' \<and> (\<forall>x \<in> set xs. settled H s' (r @ [x]))"
  using assms
proof (induction xs arbitrary: s)
  case Nil
  then show ?case by (simp add: forward_step_def)
next
  case (Cons x xs)
  obtain u1 s1 where one: "copy_or_update_file H r x s = Returned u1 s1"
    and more: "copy_files H r xs s1 = Returned u s'"
    using Cons.prems(1) by (auto split: result.splits)
  obtain c where c: "src s (r @ [x]) = Some (File c)" using Cons.prems(4) by auto
  note st = copy_or_update_file_step[OF one Cons.prems(2,3) c]
  have s1: "cache_safe H s1" "well_formed s1 Replica" "\<forall>q. src s1 q = src s q"
    using st(1) unfolding forward_step_def by simp_all
  have "\<forall>x \<in> set xs. \<exists>c. src s1 (r @ [x]) = Some (File c)"
    using Cons.prems(4) s1(3) by simp
  then have ih: "forward_step H s1 s'" "\<forall>x \<in> set xs. settled H s' (r @ [x])"
    using Cons.IH[OF more s1(1,2)] by simp_all
  have "settled H s' (r @ [x])" using st(2) ih(1) unfolding forward_step_def by simp
  then show ?case using forward_step_trans[OF st(1) ih(1)] ih(2) by simp
qed

lemma create_folder_step:
  assumes mk: "os_makedirs (Replica, r) s = Returned u1 s1"
    and log: "log_operation m s1 = Returned u s'"
    and safe: "cache_safe H s" and wf: "well_formed s Replica"
  shows "forward_step H s s'" and "rep s' r = Some Dir"
proof -
  note e = os_makedirs_Returned[OF mk]
  note l = log_operation_Returned[OF log]
  have srcs: "src s' q = src s q" for q using e(1)[of Source q] l(1) by simp
  have reps: "rep s' q = (if prefix q r then Some Dir else rep s q)" for q
    using e(1)[of Replica q] l(1) by simp
  show "rep s' r = Some Dir" using reps[of r] by simp
  have files: "rep s q = Some (File c) \<Longrightarrow> rep s' q = Some (File c)" for q c
    using reps[of q] os_makedirs_no_file[OF mk, of q] by auto
  have exists: "rep s q \<noteq> None \<Longrightarrow> rep s' q = rep s q" for q
    using reps[of q] os_makedirs_no_file[OF mk, of q] by auto
  have cache: "md5_cache s' = md5_cache s" using e(2) l(2) by simp
  have "settled H s q \<longrightarrow> settled H s' q" for q
  proof
    assume a: "settled H s q"
    show "settled H s' q"
    proof (cases "rep s q")
      case None
      then have "src s q = None" using a by (simp add: settled_def)
      then show ?thesis using srcs by (simp add: settled_absent)
    next
      case (Some n)
      then have "rep s' q = rep s q" using exists by simp
      then show ?thesis using a srcs settled_cong[of s' q s H] by simp
    qed
  qed
  moreover have "cache_safe H s'"
    unfolding cache_safe_def
  proof (intro conjI allI impI)
    fix q d
    assume "md5_cache s' (Source, q) = Some d"
    then show "\<exists>c. src s' q = Some (File c) \<and> H c = d"
      using safe cache srcs unfolding cache_safe_def by simp
  next
    fix q d
    assume "md5_cache s' (Replica, q) = Some d"
    then obtain c where "rep s q = Some (File c)" "H c = d \<or> src s q = Some (File c)"
      using cache_safe_replicaD[OF safe, of q d] cache by auto
    then show "\<exists>c. rep s' q = Some (File c) \<and> (H c = d \<or> src s' q = Some (File c))"
      using files srcs by auto
  qed
  moreover have "well_formed s' Replica"
    unfolding well_formed_def
  proof (intro allI impI conjI)
    fix q
    assume ex: "rep s' q \<noteq> None"
    show "rep s' [] = Some Dir" using reps[of "[]"] by simp
    assume ne: "q \<noteq> []"
    show "rep s' (butlast q) = Some Dir"
    proof (cases "prefix q r")
      case True
      then have "prefix (butlast q) r" by (metis prefix_order.trans prefixeq_butlast)
      then show ?thesis using reps by simp
    next
      case False
      then have "rep s q \<noteq> None" using ex reps by simp
      then have "rep s (butlast q) = Some Dir" using wf ne unfolding well_formed_def by simp
      then show ?thesis using exists by simp
    qed
  qed
  moreover have "rep s q \<noteq> None \<longrightarrow> rep s' q \<noteq> None" for q using exists by simp
  ultimately show "forward_step H s s'" unfolding forward_step_def using srcs by simp
qed

lemma sync_source_dir_step:
  assumes run: "sync_source_dir H r xs s = Returned u s'"
    and safe: "cache_safe H s" and wf: "well_formed s Replica"
    and files: "\<forall>x \<in> set xs. \<exists>c. src s (r @ [x]) = Some (File c)"
  shows "forward_step H s s' \<and> (\<forall>x \<in> set xs. settled H s' (r @ [x])) \<and> rep s' r \<noteq> None"
proof (cases "os_path_exists s (Replica, r)")
  case True
  then have "copy_files H r xs s = Returned u s'"
    using run by (simp add: sync_source_dir_def Let_def)
  then have "forward_step H s s' \<and> (\<forall>x \<in> set xs. settled H s' (r @ [x]))"
    using safe wf files by (rule copy_files_step)
  moreover from this have "rep s' r \<noteq> None"
    using True unfolding forward_step_def os_path_exists_def by simp
  ultimately show ?thesis by simp
next
  case False
  obtain u1 s1 u2 s2 where mk: "os_makedirs (Replica, r) s = Returned u1 s1"
    and log: "log_operation (CreatedFolder (Replica, r)) s1 = Returned u2 s2"
    and rest: "copy_files H r xs s2 = Returned u s'"
    using run False by (auto simp: sync_source_dir_def Let_def split: result.splits)
  note first = create_folder_step[OF mk log safe wf]
  have s2: "cache_safe H s2" "well_formed s2 Replica" "\<forall>q. src s2 q = src s q"
    using first(1) unfolding forward_step_def by simp_all
  have "\<forall>x \<in> set xs. \<exists>c. src s2 (r @ [x]) = Some (File c)" using files s2(3) by simp
  then have more: "forward_step H s2 s' \<and> (\<forall>x \<in> set xs. settled H s' (r @ [x]))"
    using copy_files_step[OF rest s2(1,2)] by simp
  then have "rep s' r \<noteq> None" using first(2) unfolding forward_step_def by simp
  then show ?thesis using forward_step_trans[OF first(1)] more by simp
qed

text \<open>
  The first walk: a path that is settled stays so, and every path at or below a
  directory still to visit is settled at the end.
\<close>

lemma copy_phase_converges:
  assumes "copy_phase H stack s = Returned u s'"
    and "cache_safe H s" and "well_formed s Replica" and "well_formed s Source"
    and "\<forall>r \<in> set stack. src s r = None \<or> src s r = Some Dir"
  shows "forward_step H s s' \<and>
         (\<forall>p. (\<exists>r \<in> set stack. prefix r p) \<longrightarrow> settled H s' p)"
  using assms
proof (induction H stack s rule: copy_phase.induct)
  case (1 H s)
  then show ?case by (simp add: forward_step_def)
next
  case (2 H r stack s)
  note wfs = "2.prems"(4)
  show ?case
  proof (cases "scandir s (Source, r)")
    case None
    then have run: "copy_phase H stack s = Returned u s'"
      using "2.prems"(1) by (simp add: copy_phase.simps)
    have stack: "\<forall>r' \<in> set stack. src s r' = None \<or> src s r' = Some Dir"
      using "2.prems"(5) by simp
    note ih = "2.IH"(1)[OF None run "2.prems"(2,3) wfs stack]
    have gone: "src s r = None" using None "2.prems"(5) by (auto simp: scandir_None)
    have "settled H s' p" if "prefix r p" for p
    proof -
      have "src s p = None"
      proof (cases "p = r")
        case True
        then show ?thesis using gone by simp
      next
        case False
        then have "strict_prefix r p" using that by (simp add: strict_prefix_def)
        then show ?thesis using well_formed_prefix[OF wfs, of p r] gone
          by (metis option.distinct(1))
      qed
      then have "settled H s p" by (rule settled_absent)
      then show ?thesis using ih unfolding forward_step_def by simp
    qed
    then show ?thesis using ih by auto
  next
    case (Some x2)
    obtain dirs files where x2: "x2 = (dirs, files)" by (cases x2)
    note scan = scandir_Some[OF Some[unfolded x2]]
    obtain u1 s1 where body: "sync_source_dir H r files s = Returned u1 s1"
      and rest: "copy_phase H (map (\<lambda>d. r @ [d]) dirs @ stack) s1 = Returned u s'"
      using "2.prems"(1) Some x2 by (auto simp: copy_phase.simps split: result.splits)
    have "\<forall>x \<in> set files. \<exists>c. src s (r @ [x]) = Some (File c)" using scan(3) by simp
    then have step: "forward_step H s s1" "\<forall>x \<in> set files. settled H s1 (r @ [x])"
        "rep s1 r \<noteq> None"
      using sync_source_dir_step[OF body "2.prems"(2,3)] by simp_all
    have s1: "cache_safe H s1" "well_formed s1 Replica" "\<forall>q. src s1 q = src s q"
      using step(1) unfolding forward_step_def by simp_all
    have wfs1: "well_formed s1 Source"
      using wfs s1(3) unfolding well_formed_def by simp
    have stack1: "\<forall>r' \<in> set (map (\<lambda>d. r @ [d]) dirs @ stack). src s1 r' = None \<or> src s1 r' = Some Dir"
      using scan(2) "2.prems"(5) s1(3) by auto
    note ih = "2.IH"(2)[OF Some x2[symmetric] body rest s1(1,2) wfs1 stack1]
    have keep: "settled H s1 p \<Longrightarrow> settled H s' p" for p
      using ih unfolding forward_step_def by simp
    have covered: "(\<exists>r' \<in> set (map (\<lambda>d. r @ [d]) dirs @ stack). prefix r' p) \<Longrightarrow> settled H s' p" for p
      using ih by blast
    have below: "settled H s' p" if pre: "prefix r p" for p
    proof (cases "p = r")
      case True
      have "settled H s1 r" using scan(1) s1(3) step(3) by (simp add: settled_dir)
      then show ?thesis using keep True by simp
    next
      case False
      then obtain zs where zs: "p = r @ zs" "zs \<noteq> []"
        using pre by (auto simp: prefix_def)
      obtain x ys where p: "p = r @ x # ys" using zs by (cases zs) auto
      show ?thesis
      proof (cases "src s p")
        case None
        then have "settled H s1 p" using s1(3) by (simp add: settled_absent)
        then show ?thesis by (rule keep)
      next
        case (Some n)
        have child: "src s (r @ [x]) \<noteq> None"
        proof (cases "ys = []")
          case True
          then show ?thesis using Some p by simp
        next
          case False
          then have "strict_prefix (r @ [x]) p" using p by (simp add: strict_prefix_def prefix_def)
          then show ?thesis using well_formed_prefix[OF wfs, of p "r @ [x]"] Some by simp
        qed
        show ?thesis
        proof (cases "src s (r @ [x]) = Some Dir")
          case True
          then have "x \<in> set dirs" using scan(2) by simp
          moreover have "prefix (r @ [x]) p" using p by (simp add: prefix_def)
          ultimately have "\<exists>r' \<in> set (map (\<lambda>d. r @ [d]) dirs @ stack). prefix r' p" by auto
          then show ?thesis by (rule covered)
        next
          case False
          then obtain c where c: "src s (r @ [x]) = Some (File c)"
            using child by (cases "src s (r @ [x])") (auto intro: node.exhaust)
          have "ys = []"
          proof (rule ccontr)
            assume "ys \<noteq> []"
            then have "strict_prefix (r @ [x]) p" using p by (simp add: strict_prefix_def prefix_def)
            then show False using well_formed_prefix[OF wfs, of p "r @ [x]"] Some c by simp
          qed
          then have "p = r @ [x]" using p by simp
          moreover have "x \<in> set files" using scan(3) c by simp
          ultimately have "settled H s1 p" using step(2) by simp
          then show ?thesis by (rule keep)
        qed
      qed
    qed
    have "settled H s' p" if via: "\<exists>r' \<in> set (r # stack). prefix r' p" for p
    proof -
      consider "prefix r p" | "\<exists>r' \<in> set stack. prefix r' p" using via by auto
      then show ?thesis
      proof cases
        case 1
        then show ?thesis by (rule below)
      next
        case 2
        then have "\<exists>r' \<in> set (map (\<lambda>d. r @ [d]) dirs @ stack). prefix r' p" by auto
        then show ?thesis by (rule covered)
      qed
    qed
    moreover have "forward_step H s s'" using forward_step_trans[OF step(1)] ih by simp
    ultimately show ?thesis by blast
  qed
qed

text \<open>The facts that the second walk hands from one step to the next.\<close>

definition reverse_step :: "state \<Rightarrow> state \<Rightarrow> bool" where
  "reverse_step s s' =
     ((\<forall>q. src s' q = src s q) \<and>
      (\<forall>q. src s q \<noteq> None \<longrightarrow> rep s' q = rep s q) \<and>
      (\<forall>q. rep s' q = None \<or> rep s' q = rep s q) \<and>
      well_formed s' Replica)"

lemma reverse_step_trans: "reverse_step s s1 \<Longrightarrow> reverse_step s1 s2 \<Longrightarrow> reverse_step s s2"
  unfolding reverse_step_def by (metis (no_types, lifting))

lemma well_formed_shrink:
  assumes wf: "well_formed s t"
    and only: "\<forall>q. stat s' (t, q) = None \<or> stat s' (t, q) = stat s (t, q)"
    and closed: "\<forall>q r. stat s' (t, q) \<noteq> None \<longrightarrow> prefix r q \<longrightarrow> stat s' (t, r) \<noteq> None"
  shows "well_formed s' t"
  unfolding well_formed_def
proof (intro allI impI conjI)
  fix q
  assume ex: "stat s' (t, q) \<noteq> None"
  then have old: "stat s (t, q) \<noteq> None" using only by metis
  have "stat s' (t, []) \<noteq> None" using closed ex by (meson Nil_prefix)
  then show "stat s' (t, []) = Some Dir" using only wf old unfolding well_formed_def by metis
  assume "q \<noteq> []"
  then have "stat s (t, butlast q) = Some Dir" using wf old unfolding well_formed_def by simp
  moreover have "stat s' (t, butlast q) \<noteq> None" using closed ex by (meson prefixeq_butlast)
  ultimately show "stat s' (t, butlast q) = Some Dir" using only by metis
qed

lemma remove_replica_file_step:
  assumes run: "remove_replica_file r x s = Returned u s'"
    and wf: "well_formed s Replica"
  shows "reverse_step s s'" and "rep s' (r @ [x]) \<noteq> None \<longrightarrow> src s (r @ [x]) \<noteq> None"
proof -
  let ?p = "r @ [x]"
  have both: "reverse_step s s' \<and> (rep s' ?p \<noteq> None \<longrightarrow> src s ?p \<noteq> None)"
  proof (cases "os_path_exists s (Source, ?p)")
    case True
    then have "s' = s" using run by (simp add: remove_replica_file_def Let_def)
    then show ?thesis using True wf by (simp add: reverse_step_def os_path_exists_def)
  next
    case False
    then have absent: "src s ?p = None" by (simp add: os_path_exists_def)
    obtain u1 s1 where rm: "os_remove (Replica, ?p) s = Returned u1 s1"
      and log: "log_operation (RemovedFile (Replica, ?p)) s1 = Returned u s'"
      using run False by (auto simp: remove_replica_file_def Let_def split: result.splits)
    note e = os_remove_Returned[OF rm]
    note l = log_operation_Returned[OF log]
    have srcs: "src s' q = src s q" for q using e(1)[of Source q] l(1) by simp
    have reps: "rep s' q = (if q = ?p then None else rep s q)" for q
      using e(1)[of Replica q] l(1) by simp
    obtain c where wasfile: "rep s ?p = Some (File c)" using e(3) by blast
    have "well_formed s' Replica"
    proof (rule well_formed_shrink[OF wf])
      show "\<forall>q. rep s' q = None \<or> rep s' q = rep s q" using reps by simp
      show "\<forall>q r0. rep s' q \<noteq> None \<longrightarrow> prefix r0 q \<longrightarrow> rep s' r0 \<noteq> None"
      proof (intro allI impI)
        fix q r0
        assume ex: "rep s' q \<noteq> None" and pre: "prefix r0 q"
        then have q: "q \<noteq> ?p" "rep s q \<noteq> None" using reps[of q] by (auto split: if_splits)
        show "rep s' r0 \<noteq> None"
        proof (cases "r0 = q")
          case True
          then show ?thesis using ex by simp
        next
          case False
          then have "rep s r0 = Some Dir"
            using well_formed_prefix[OF wf q(2), of r0] pre by (simp add: strict_prefix_def)
          then show ?thesis using reps[of r0] wasfile by auto
        qed
      qed
    qed
    then show ?thesis using srcs reps absent by (simp add: reverse_step_def)
  qed
  show "reverse_step s s'" and "rep s' (r @ [x]) \<noteq> None \<longrightarrow> src s (r @ [x]) \<noteq> None"
    using both by simp_all
qed

lemma remove_files_step:
  assumes "remove_files r xs s = Returned u s'" and "well_formed s Replica"
  shows "reverse_step s s' \<and> (\<forall>x \<in> set xs. rep s' (r @ [x]) \<noteq> None \<longrightarrow> src s (r @ [x]) \<noteq> None)"
  using assms
proof (induction xs arbitrary: s)
  case Nil
  then show ?case by (simp add: reverse_step_def)
next
  case (Cons x xs)
  obtain u1 s1 where one: "remove_replica_file r x s = Returned u1 s1"
    and more: "remove_files r xs s1 = Returned u s'"
    using Cons.prems(1) by (auto split: result.splits)
  note st = remove_replica_file_step[OF one Cons.prems(2)]
  have wf1: "well_formed s1 Replica" and src1: "\<forall>q. src s1 q = src s q"
    using st(1) unfolding reverse_step_def by simp_all
  note ih = Cons.IH[OF more wf1]
  have only: "\<forall>q. rep s' q = None \<or> rep s' q = rep s1 q"
    using ih unfolding reverse_step_def by simp
  have "rep s' (r @ [x]) \<noteq> None \<longrightarrow> src s (r @ [x]) \<noteq> None"
    using st(2) only by metis
  moreover have "\<forall>y \<in> set xs. rep s' (r @ [y]) \<noteq> None \<longrightarrow> src s (r @ [y]) \<noteq> None"
    using ih src1 by simp
  ultimately show ?case using reverse_step_trans[OF st(1)] ih by simp
qed

lemma sync_replica_dir_step:
  assumes run: "sync_replica_dir r xs s = Returned u s'"
    and wf: "well_formed s Replica" and wfs: "well_formed s Source"
  shows "reverse_step s s'"
    and "\<forall>x \<in> set xs. rep s' (r @ [x]) \<noteq> None \<longrightarrow> src s (r @ [x]) \<noteq> None"
    and "src s r = None \<longrightarrow> (\<forall>q. prefix r q \<longrightarrow> rep s' q = None)"
proof -
  have all: "reverse_step s s' \<and>
      (\<forall>x \<in> set xs. rep s' (r @ [x]) \<noteq> None \<longrightarrow> src s (r @ [x]) \<noteq> None) \<and>
      (src s r = None \<longrightarrow> (\<forall>q. prefix r q \<longrightarrow> rep s' q = None))"
  proof (cases "os_path_exists s (Source, r)")
    case True
    then have "remove_files r xs s = Returned u s'"
      using run by (simp add: sync_replica_dir_def Let_def)
    then have "reverse_step s s' \<and>
        (\<forall>x \<in> set xs. rep s' (r @ [x]) \<noteq> None \<longrightarrow> src s (r @ [x]) \<noteq> None)"
      using wf by (rule remove_files_step)
    moreover have "src s r \<noteq> None" using True by (simp add: os_path_exists_def)
    ultimately show ?thesis by blast
  next
    case False
    then have absent: "src s r = None" by (simp add: os_path_exists_def)
    obtain u1 s1 u2 s2 where rm: "shutil_rmtree (Replica, r) s = Returned u1 s1"
      and log: "log_operation (RemovedFolder (Replica, r)) s1 = Returned u2 s2"
      and rest: "remove_files r xs s2 = Returned u s'"
      using run False by (auto simp: sync_replica_dir_def Let_def split: result.splits)
    note e = shutil_rmtree_Returned[OF rm]
    note l = log_operation_Returned[OF log]
    have srcs: "src s2 q = src s q" for q using e(1)[of Source q] l(1) by simp
    have reps: "rep s2 q = (if prefix r q then None else rep s q)" for q
      using e(1)[of Replica q] l(1) by simp
    have below: "src s q = None" if "prefix r q" for q
    proof (cases "q = r")
      case True
      then show ?thesis using absent by simp
    next
      case False
      then have "strict_prefix r q" using that by (simp add: strict_prefix_def)
      then show ?thesis using well_formed_prefix[OF wfs, of q r] absent
        by (metis option.distinct(1))
    qed
    have wf2: "well_formed s2 Replica"
    proof (rule well_formed_shrink[OF wf])
      show "\<forall>q. rep s2 q = None \<or> rep s2 q = rep s q" using reps by simp
      show "\<forall>q r0. rep s2 q \<noteq> None \<longrightarrow> prefix r0 q \<longrightarrow> rep s2 r0 \<noteq> None"
      proof (intro allI impI)
        fix q r0
        assume ex: "rep s2 q \<noteq> None" and pre: "prefix r0 q"
        then have q: "\<not> prefix r q" "rep s q \<noteq> None" using reps[of q] by (auto split: if_splits)
        have "\<not> prefix r r0" using q(1) pre by (meson prefix_order.trans)
        moreover have "rep s r0 \<noteq> None"
        proof (cases "r0 = q")
          case True
          then show ?thesis using q(2) by simp
        next
          case False
          then show ?thesis
            using well_formed_prefix[OF wf q(2), of r0] pre by (simp add: strict_prefix_def)
        qed
        ultimately show "rep s2 r0 \<noteq> None" using reps[of r0] by simp
      qed
    qed
    have first: "reverse_step s s2"
      unfolding reverse_step_def using srcs reps below wf2 by auto
    note st = remove_files_step[OF rest wf2]
    have only: "\<forall>q. rep s' q = None \<or> rep s' q = rep s2 q"
      using st unfolding reverse_step_def by simp
    have gone: "\<forall>q. prefix r q \<longrightarrow> rep s' q = None"
      using only reps by metis
    show ?thesis using reverse_step_trans[OF first] st srcs gone by simp
  qed
  show "reverse_step s s'"
    and "\<forall>x \<in> set xs. rep s' (r @ [x]) \<noteq> None \<longrightarrow> src s (r @ [x]) \<noteq> None"
    and "src s r = None \<longrightarrow> (\<forall>q. prefix r q \<longrightarrow> rep s' q = None)"
    using all by simp_all
qed

text \<open>
  The second walk: what has a mirror in the source is left alone, and whatever is
  left below a directory still to visit has a mirror in the source.
\<close>

lemma remove_phase_converges:
  assumes "remove_phase stack s = Returned u s'"
    and "well_formed s Replica" and "well_formed s Source"
    and "\<forall>r \<in> set stack. rep s r = None \<or> rep s r = Some Dir"
  shows "reverse_step s s' \<and>
         (\<forall>q. rep s' q \<noteq> None \<and> (\<exists>r \<in> set stack. prefix r q) \<longrightarrow> src s q \<noteq> None)"
  using assms
proof (induction stack s rule: remove_phase.induct)
  case (1 s)
  then show ?case by (simp add: reverse_step_def)
next
  case (2 r stack s)
  note wf = "2.prems"(2) and wfs = "2.prems"(3)
  show ?case
  proof (cases "scandir s (Replica, r)")
    case None
    then have run: "remove_phase stack s = Returned u s'"
      using "2.prems"(1) by (simp add: remove_phase.simps)
    have stack: "\<forall>r' \<in> set stack. rep s r' = None \<or> rep s r' = Some Dir"
      using "2.prems"(4) by simp
    note ih = "2.IH"(1)[OF None run wf wfs stack]
    have gone: "rep s r = None" using None "2.prems"(4) by (auto simp: scandir_None)
    have "rep s' q = None" if "prefix r q" for q
    proof -
      have "rep s q = None"
      proof (cases "q = r")
        case True
        then show ?thesis using gone by simp
      next
        case False
        then have "strict_prefix r q" using that by (simp add: strict_prefix_def)
        then show ?thesis using well_formed_prefix[OF wf, of q r] gone
          by (metis option.distinct(1))
      qed
      then show ?thesis using ih unfolding reverse_step_def by metis
    qed
    then show ?thesis using ih by auto
  next
    case (Some x2)
    obtain dirs files where x2: "x2 = (dirs, files)" by (cases x2)
    note scan = scandir_Some[OF Some[unfolded x2]]
    obtain u1 s1 where body: "sync_replica_dir r files s = Returned u1 s1"
      and rest: "remove_phase (map (\<lambda>d. r @ [d]) dirs @ stack) s1 = Returned u s'"
      using "2.prems"(1) Some x2 by (auto simp: remove_phase.simps split: result.splits)
    note st = sync_replica_dir_step[OF body wf wfs]
    have s1: "\<forall>q. src s1 q = src s q" "\<forall>q. rep s1 q = None \<or> rep s1 q = rep s q"
      "well_formed s1 Replica"
      using st(1) unfolding reverse_step_def by simp_all
    have wfs1: "well_formed s1 Source" using wfs s1(1) unfolding well_formed_def by simp
    have stack1: "\<forall>r' \<in> set (map (\<lambda>d. r @ [d]) dirs @ stack). rep s1 r' = None \<or> rep s1 r' = Some Dir"
    proof
      fix r'
      assume "r' \<in> set (map (\<lambda>d. r @ [d]) dirs @ stack)"
      then have "rep s r' = None \<or> rep s r' = Some Dir"
        using scan(2) "2.prems"(4) by auto
      then show "rep s1 r' = None \<or> rep s1 r' = Some Dir" using s1(2) by metis
    qed
    note ih = "2.IH"(2)[OF Some x2[symmetric] body rest s1(3) wfs1 stack1]
    have only: "\<forall>q. rep s' q = None \<or> rep s' q = rep s1 q"
      using ih unfolding reverse_step_def by simp
    have pending: "src s q \<noteq> None"
      if ex: "rep s' q \<noteq> None" and via: "\<exists>r' \<in> set (map (\<lambda>d. r @ [d]) dirs @ stack). prefix r' q" for q
      using ih ex via s1(1) by auto
    have below: "src s q \<noteq> None" if ex: "rep s' q \<noteq> None" and pre: "prefix r q" for q
    proof -
      have ex1: "rep s1 q \<noteq> None" using ex only by metis
      then have ex0: "rep s q \<noteq> None" using s1(2) by metis
      have here: "src s r \<noteq> None" using st(3) ex1 pre by metis
      show ?thesis
      proof (cases "q = r")
        case True
        then show ?thesis using here by simp
      next
        case False
        then obtain zs where zs: "q = r @ zs" "zs \<noteq> []"
          using pre by (auto simp: prefix_def)
        obtain x ys where q: "q = r @ x # ys" using zs by (cases zs) auto
        have child: "rep s (r @ [x]) \<noteq> None"
        proof (cases "ys = []")
          case True
          then show ?thesis using ex0 q by simp
        next
          case False
          then have "strict_prefix (r @ [x]) q" using q by (simp add: strict_prefix_def prefix_def)
          then show ?thesis using well_formed_prefix[OF wf ex0, of "r @ [x]"] by simp
        qed
        show ?thesis
        proof (cases "rep s (r @ [x]) = Some Dir")
          case True
          then have "x \<in> set dirs" using scan(2) by simp
          moreover have "prefix (r @ [x]) q" using q by (simp add: prefix_def)
          ultimately have "\<exists>r' \<in> set (map (\<lambda>d. r @ [d]) dirs @ stack). prefix r' q" by auto
          then show ?thesis using pending[OF ex] by simp
        next
          case False
          then obtain c where c: "rep s (r @ [x]) = Some (File c)"
            using child by (cases "rep s (r @ [x])") (auto intro: node.exhaust)
          have "ys = []"
          proof (rule ccontr)
            assume "ys \<noteq> []"
            then have "strict_prefix (r @ [x]) q" using q by (simp add: strict_prefix_def prefix_def)
            then show False using well_formed_prefix[OF wf ex0, of "r @ [x]"] c by simp
          qed
          then have "q = r @ [x]" using q by simp
          moreover have "x \<in> set files" using scan(3) c by simp
          ultimately show ?thesis using st(2) ex1 by auto
        qed
      qed
    qed
    have "src s q \<noteq> None" if ex: "rep s' q \<noteq> None" and via: "\<exists>r' \<in> set (r # stack). prefix r' q" for q
    proof -
      consider "prefix r q" | "\<exists>r' \<in> set stack. prefix r' q" using via by auto
      then show ?thesis
      proof cases
        case 1
        then show ?thesis using below[OF ex] by simp
      next
        case 2
        then have "\<exists>r' \<in> set (map (\<lambda>d. r @ [d]) dirs @ stack). prefix r' q" by auto
        then show ?thesis using pending[OF ex] by simp
      qed
    qed
    moreover have "reverse_step s s'" using reverse_step_trans[OF st(1)] ih by simp
    ultimately show ?thesis by blast
  qed
qed

text \<open>The whole pass, when its \<^verbatim>\<open>try\<close> block runs to the end.\<close>

lemma synchronize_converges:
  assumes run: "synchronize H s = Returned u s'"
    and wfs: "well_formed s Source" and wf: "well_formed s Replica"
    and safe: "cache_safe H s"
  shows "\<forall>q. src s' q = src s q"
    and "\<forall>p. settled H s' p"
    and "\<forall>p. rep s' p \<noteq> None \<longrightarrow> src s' p \<noteq> None"
    and "well_formed s' Replica"
proof -
  let ?first = "if \<not> os_path_exists s (Replica, [])
            then (case os_makedirs (Replica, []) s of
                    Raised e s' \<Rightarrow> Raised e s'
                  | Returned u s' \<Rightarrow> log_operation CreatedReplicaFolder s')
            else Returned () s"
  obtain u1 s1 u2 s2 where first: "?first = Returned u1 s1"
    and fwd: "copy_phase H [[]] s1 = Returned u2 s2"
    and rev: "remove_phase [[]] s2 = Returned u s'"
    using run by (auto simp: synchronize_def split: result.splits)
  have step1: "forward_step H s s1"
  proof (cases "os_path_exists s (Replica, [])")
    case True
    then have "s1 = s" using first by simp
    then show ?thesis using safe wf by (simp add: forward_step_def)
  next
    case False
    then obtain u0 s0 where mk: "os_makedirs (Replica, []) s = Returned u0 s0"
      and log: "log_operation CreatedReplicaFolder s0 = Returned u1 s1"
      using first by (auto split: result.splits)
    show ?thesis using mk log safe wf by (rule create_folder_step(1))
  qed
  then have s1: "cache_safe H s1" "well_formed s1 Replica" "\<forall>q. src s1 q = src s q"
    unfolding forward_step_def by simp_all
  have wfs1: "well_formed s1 Source" using wfs s1(3) unfolding well_formed_def by simp
  have root1: "\<forall>r \<in> set [[]]. src s1 r = None \<or> src s1 r = Some Dir"
    using wfs1 unfolding well_formed_def by auto
  note f = copy_phase_converges[OF fwd s1(1,2) wfs1 root1]
  have s2: "well_formed s2 Replica" "\<forall>q. src s2 q = src s1 q" "\<forall>p. settled H s2 p"
    using f unfolding forward_step_def by simp_all
  have wfs2: "well_formed s2 Source" using wfs1 s2(2) unfolding well_formed_def by simp
  have root2: "\<forall>r \<in> set [[]]. rep s2 r = None \<or> rep s2 r = Some Dir"
    using s2(1) unfolding well_formed_def by auto
  note r = remove_phase_converges[OF rev s2(1) wfs2 root2]
  have s': "\<forall>q. src s' q = src s2 q" "\<forall>q. src s2 q \<noteq> None \<longrightarrow> rep s' q = rep s2 q"
    "well_formed s' Replica"
    using r unfolding reverse_step_def by simp_all
  show "\<forall>q. src s' q = src s q" using s'(1) s2(2) s1(3) by simp
  show "well_formed s' Replica" by (rule s'(3))
  show "\<forall>p. rep s' p \<noteq> None \<longrightarrow> src s' p \<noteq> None" using r s'(1) by simp
  show "\<forall>p. settled H s' p"
  proof
    fix p
    show "settled H s' p"
    proof (cases "src s2 p")
      case None
      then show ?thesis using s'(1) by (simp add: settled_absent)
    next
      case (Some n)
      then have "rep s' p = rep s2 p" using s'(2) by simp
      then show ?thesis using s2(3) s'(1) settled_cong[of s' p s2 H] by simp
    qed
  qed
qed

lemma returned_final: "raised r = None \<Longrightarrow> r = Returned () (final r)"
  by (cases r) simp_all

text \<open>
  Claim C1, amended. Take well-formed source and replica trees and a cache whose
  fingerprints are those of the files now at their paths (an empty cache, as in the
  first pass of a process, is one). After a call of \<^verbatim>\<open>sync_folders\<close> whose
  \<^verbatim>\<open>try\<close> block runs to its end, the handler not entered, every file under the
  source root has a file with the same fingerprint at the mirrored path under the
  replica root (content-equal in the sense of the data model), every path under the
  source root exists under the replica root, and every path under the replica root
  exists under the source root.
\<close>

theorem one_pass_converges:
  assumes "wf_fs (source_fs s)" and "wf_fs (replica_fs s)" and "cache_ok H s"
    and "synchronize H s = Returned () s'"
  shows "sync_folders H s = Returned () s' \<and>
         (\<forall>p c. src s' p = Some (File c) \<longrightarrow> (\<exists>c'. rep s' p = Some (File c') \<and> H c' = H c)) \<and>
         (\<forall>p. src s' p \<noteq> None \<longrightarrow> rep s' p \<noteq> None) \<and>
         (\<forall>p. rep s' p \<noteq> None \<longrightarrow> src s' p \<noteq> None)"
proof -
  have wfs: "well_formed s Source" using assms(1) wf_fs_well_formed[of s Source] by simp
  have wf: "well_formed s Replica" using assms(2) wf_fs_well_formed[of s Replica] by simp
  have safe: "cache_safe H s" using assms(3) by (rule cache_ok_safe)
  note c = synchronize_converges[OF assms(4) wfs wf safe]
  have "sync_folders H s = Returned () s'" using assms(4) by (simp add: sync_folders_def)
  then show ?thesis using c(2,3) unfolding settled_def mirrored_def by blast
qed

theorem one_pass_converges_witness:
  "wf_fs [([], Dir), ([''a''], Dir), ([''a'', ''x''], File ''hi''), ([''b''], Dir)] \<and>
   wf_fs [([], Dir), ([''a''], Dir), ([''a'', ''x''], File ''old''), ([''z''], File ''junk''), ([''e''], Dir)] \<and>
   raised (synchronize plain_digest
     (fresh [([], Dir), ([''a''], Dir), ([''a'', ''x''], File ''hi''), ([''b''], Dir)]
            [([], Dir), ([''a''], Dir), ([''a'', ''x''], File ''old''), ([''z''], File ''junk''), ([''e''], Dir)])) = None \<and>
   (\<exists>c'. rep (final (synchronize plain_digest
     (fresh [([], Dir), ([''a''], Dir), ([''a'', ''x''], File ''hi''), ([''b''], Dir)]
            [([], Dir), ([''a''], Dir), ([''a'', ''x''], File ''old''), ([''z''], File ''junk''), ([''e''], Dir)])))
        [''a'', ''x''] = Some (File c') \<and> plain_digest c' = plain_digest ''hi'') \<and>
   rep (final (synchronize plain_digest
     (fresh [([], Dir), ([''a''], Dir), ([''a'', ''x''], File ''hi''), ([''b''], Dir)]
            [([], Dir), ([''a''], Dir), ([''a'', ''x''], File ''old''), ([''z''], File ''junk''), ([''e''], Dir)])))
        [''b''] \<noteq> None \<and>
   rep (final (synchronize plain_digest
     (fresh [([], Dir), ([''a''], Dir), ([''a'', ''x''], File ''hi''), ([''b''], Dir)]
            [([], Dir), ([''a''], Dir), ([''a'', ''x''], File ''old''), ([''z''], File ''junk''), ([''e''], Dir)])))
        [''z''] = None"
proof -
  let ?src = "[([], Dir), ([''a''], Dir), ([''a'', ''x''], File ''hi''), ([''b''], Dir)]"
  let ?rep = "[([], Dir), ([''a''], Dir), ([''a'', ''x''], File ''old''), ([''z''], File ''junk''), ([''e''], Dir)]"
  let ?s = "fresh ?src ?rep"
  let ?s' = "final (synchronize plain_digest ?s)"
  have wf1: "wf_fs ?src" by code_simp
  have wf2: "wf_fs ?rep" by code_simp
  have ok: "cache_ok plain_digest ?s" by (simp add: cache_ok_def)
  have ended: "raised (synchronize plain_digest ?s) = None" by code_simp
  have run: "synchronize plain_digest ?s = Returned () ?s'" using ended by (rule returned_final)
  have srcs: "src ?s' [''a'', ''x''] = Some (File ''hi'')" "src ?s' [''b''] \<noteq> None" "src ?s' [''z''] = None"
    using synchronize_same_source[of ?s plain_digest] by (simp_all add: same_source_def stat_def)
  have concl: "(\<forall>p c. src ?s' p = Some (File c) \<longrightarrow> (\<exists>c'. rep ?s' p = Some (File c') \<and> plain_digest c' = plain_digest c)) \<and>
         (\<forall>p. src ?s' p \<noteq> None \<longrightarrow> rep ?s' p \<noteq> None) \<and>
         (\<forall>p. rep ?s' p \<noteq> None \<longrightarrow> src ?s' p \<noteq> None)"
    using one_pass_converges[of ?s plain_digest ?s'] wf1 wf2 ok run by simp
  have 1: "\<exists>c'. rep ?s' [''a'', ''x''] = Some (File c') \<and> plain_digest c' = plain_digest ''hi''"
    using concl srcs(1) by blast
  have 2: "rep ?s' [''b''] \<noteq> None" using concl srcs(2) by blast
  have 3: "rep ?s' [''z''] = None" using concl srcs(3) by blast
  show ?thesis using wf1 wf2 ended 1 2 3 by (intro conjI)
qed

section \<open>A second pass\<close>

text \<open>The trees, the log and its file are the same in both states.\<close>

definition unchanged :: "state \<Rightarrow> state \<Rightarrow> bool" where
  "unchanged s s' =
     (source_fs s' = source_fs s \<and> replica_fs s' = replica_fs s \<and>
      log_lines s' = log_lines s \<and> log_writable s' = log_writable s)"

lemma unchanged_refl [simp]: "unchanged s s"
  by (simp add: unchanged_def)

lemma unchanged_trans: "unchanged s s1 \<Longrightarrow> unchanged s1 s2 \<Longrightarrow> unchanged s s2"
  by (simp add: unchanged_def)

lemma unchanged_stat: "unchanged s s' \<Longrightarrow> stat s' = stat s"
  by (rule ext) (simp add: unchanged_def stat_def fs_of_def split: tree.splits)

lemma calculate_md5_of_file:
  assumes ok: "cache_ok H s" and isfile: "stat s l = Some (File c)"
  shows "\<exists>s'. calculate_md5 H l s = Returned (Some (H c)) s' \<and> unchanged s s' \<and> cache_ok H s'"
proof (cases "md5_cache s l")
  case None
  let ?s' = "s\<lparr>md5_cache := (md5_cache s)(l \<mapsto> H c)\<rparr>"
  have "calculate_md5 H l s = Returned (Some (H c)) ?s'"
    using None isfile by (simp add: calculate_md5_def open_rb_def)
  moreover have "unchanged s ?s'" by (simp add: unchanged_def)
  moreover have "cache_ok H ?s'" using ok isfile unfolding cache_ok_def by simp
  ultimately show ?thesis by blast
next
  case (Some d)
  then have "d = H c" using ok isfile unfolding cache_ok_def by fastforce
  then have "calculate_md5 H l s = Returned (Some (H c)) s"
    using Some by (simp add: calculate_md5_def)
  then show ?thesis using ok by auto
qed

lemma copy_or_update_file_quiet:
  assumes ok: "cache_ok H s" and isfile: "src s (r @ [x]) = Some (File c)"
    and same: "settled H s (r @ [x])"
  shows "\<exists>s'. copy_or_update_file H r x s = Returned () s' \<and> unchanged s s' \<and> cache_ok H s'"
proof -
  let ?p = "r @ [x]"
  obtain c' where mirror: "rep s ?p = Some (File c')" "H c' = H c"
    using same isfile unfolding settled_def mirrored_def by blast
  obtain s1 where m1: "calculate_md5 H (Source, ?p) s = Returned (Some (H c)) s1"
    and u1: "unchanged s s1" and ok1: "cache_ok H s1"
    using calculate_md5_of_file[OF ok isfile] by blast
  have "rep s1 ?p = Some (File c')" using mirror(1) unchanged_stat[OF u1] by simp
  then obtain s2 where m2: "calculate_md5 H (Replica, ?p) s1 = Returned (Some (H c')) s2"
    and u2: "unchanged s1 s2" and ok2: "cache_ok H s2"
    using calculate_md5_of_file[OF ok1] by blast
  have "copy_or_update_file H r x s = Returned () s2"
    using mirror m1 m2 by (simp add: copy_or_update_file_def Let_def os_path_exists_def)
  then show ?thesis using unchanged_trans[OF u1 u2] ok2 by blast
qed

lemma copy_files_quiet:
  assumes "cache_ok H s" and "\<forall>x \<in> set xs. \<exists>c. src s (r @ [x]) = Some (File c)"
    and "\<forall>p. settled H s p"
  shows "\<exists>s'. copy_files H r xs s = Returned () s' \<and> unchanged s s' \<and> cache_ok H s'"
  using assms
proof (induction xs arbitrary: s)
  case Nil
  then show ?case by simp
next
  case (Cons x xs)
  obtain c where c: "src s (r @ [x]) = Some (File c)" using Cons.prems(2) by auto
  obtain s1 where one: "copy_or_update_file H r x s = Returned () s1"
    and u1: "unchanged s s1" and ok1: "cache_ok H s1"
    using copy_or_update_file_quiet[OF Cons.prems(1) c] Cons.prems(3) by blast
  have st: "stat s1 = stat s" using u1 by (rule unchanged_stat)
  have "\<forall>x \<in> set xs. \<exists>c. src s1 (r @ [x]) = Some (File c)" using Cons.prems(2) st by simp
  moreover have "\<forall>p. settled H s1 p" using Cons.prems(3) st by (simp add: settled_def mirrored_def)
  ultimately obtain s' where "copy_files H r xs s1 = Returned () s'" "unchanged s1 s'" "cache_ok H s'"
    using Cons.IH[OF ok1] by blast
  then show ?case using one unchanged_trans[OF u1] by auto
qed

lemma copy_phase_quiet:
  assumes "cache_ok H s" and "\<forall>p. settled H s p"
  shows "\<exists>s'. copy_phase H stack s = Returned () s' \<and> unchanged s s' \<and> cache_ok H s'"
  using assms
proof (induction H stack s rule: copy_phase.induct)
  case (1 H s)
  then show ?case by simp
next
  case (2 H r stack s)
  show ?case
  proof (cases "scandir s (Source, r)")
    case None
    then show ?thesis using "2.IH"(1)[OF None "2.prems"] by (simp add: copy_phase.simps)
  next
    case (Some x2)
    obtain dirs files where x2: "x2 = (dirs, files)" by (cases x2)
    note scan = scandir_Some[OF Some[unfolded x2]]
    have "rep s r \<noteq> None" using "2.prems"(2) scan(1) unfolding settled_def by force
    then have "os_path_exists s (Replica, r)" by (simp add: os_path_exists_def)
    then have dir: "sync_source_dir H r files s = copy_files H r files s"
      by (simp add: sync_source_dir_def Let_def)
    have "\<forall>x \<in> set files. \<exists>c. src s (r @ [x]) = Some (File c)" using scan(3) by simp
    then obtain s1 where body: "sync_source_dir H r files s = Returned () s1"
      and u1: "unchanged s s1" and ok1: "cache_ok H s1"
      using copy_files_quiet[OF "2.prems"(1) _ "2.prems"(2)] dir by metis
    have st: "stat s1 = stat s" using u1 by (rule unchanged_stat)
    have "\<forall>p. settled H s1 p" using "2.prems"(2) st by (simp add: settled_def mirrored_def)
    then obtain s' where "copy_phase H (map (\<lambda>d. r @ [d]) dirs @ stack) s1 = Returned () s'"
        "unchanged s1 s'" "cache_ok H s'"
      using "2.IH"(2)[OF Some x2[symmetric] body ok1] by blast
    then show ?thesis using Some x2 body unchanged_trans[OF u1] by (auto simp: copy_phase.simps)
  qed
qed

lemma remove_files_quiet:
  assumes "\<forall>x \<in> set xs. os_path_exists s (Source, r @ [x])"
  shows "remove_files r xs s = Returned () s"
  using assms by (induction xs) (simp_all add: remove_replica_file_def)

lemma remove_phase_quiet:
  assumes "\<forall>p. rep s p \<noteq> None \<longrightarrow> src s p \<noteq> None"
  shows "remove_phase stack s = Returned () s"
  using assms
proof (induction stack s rule: remove_phase.induct)
  case (1 s)
  show ?case by simp
next
  case (2 r stack s)
  show ?case
  proof (cases "scandir s (Replica, r)")
    case None
    then show ?thesis using "2.IH"(1)[OF None "2.prems"] by (simp add: remove_phase.simps)
  next
    case (Some x2)
    obtain dirs files where x2: "x2 = (dirs, files)" by (cases x2)
    note scan = scandir_Some[OF Some[unfolded x2]]
    have "src s r \<noteq> None" using "2.prems" scan(1) by force
    then have here: "os_path_exists s (Source, r)" by (simp add: os_path_exists_def)
    have "\<forall>x \<in> set files. src s (r @ [x]) \<noteq> None" using "2.prems" scan(3) by force
    then have "\<forall>x \<in> set files. os_path_exists s (Source, r @ [x])"
      by (simp add: os_path_exists_def)
    then have "remove_files r files s = Returned () s" by (rule remove_files_quiet)
    then have body: "sync_replica_dir r files s = Returned () s"
      using here by (simp add: sync_replica_dir_def Let_def)
    show ?thesis
      using Some x2 body "2.IH"(2)[OF Some x2[symmetric] body "2.prems"]
      by (simp add: remove_phase.simps)
  qed
qed

lemma synchronize_quiet:
  assumes ok: "cache_ok H s" and settled: "\<forall>p. settled H s p"
    and sub: "\<forall>p. rep s p \<noteq> None \<longrightarrow> src s p \<noteq> None"
    and root: "src s [] \<noteq> None"
  shows "\<exists>s'. synchronize H s = Returned () s' \<and> unchanged s s'"
proof -
  have there: "os_path_exists s (Replica, [])"
    using settled root unfolding settled_def os_path_exists_def by simp
  obtain s1 where fwd: "copy_phase H [[]] s = Returned () s1" and u1: "unchanged s s1"
    using copy_phase_quiet[OF ok settled] by blast
  have st: "stat s1 = stat s" using u1 by (rule unchanged_stat)
  have "remove_phase [[]] s1 = Returned () s1"
    using sub st by (intro remove_phase_quiet) simp
  then have "synchronize H s = Returned () s1"
    using there fwd by (simp add: synchronize_def)
  then show ?thesis using u1 by blast
qed

text \<open>
  Claim C2, amended. Take well-formed trees with an existing source root and a cache
  whose fingerprints are those of the files now at their paths. If one call of
  \<^verbatim>\<open>sync_folders\<close> runs its \<^verbatim>\<open>try\<close> block to the end and the cached
  fingerprints are still those of the files afterwards (the call has overwritten no
  replica file that it had fingerprinted), then a second call right after it returns
  without an error and leaves both trees and the log as they are: no directory is
  created, no file copied, nothing removed, no record written.
\<close>

theorem second_pass_does_nothing:
  assumes "wf_fs (source_fs s)" and "wf_fs (replica_fs s)" and "cache_ok H s"
    and "src s [] \<noteq> None"
    and "synchronize H s = Returned () s1" and "cache_ok H s1"
  shows "\<exists>s2. sync_folders H s1 = Returned () s2 \<and> source_fs s2 = source_fs s1 \<and>
           replica_fs s2 = replica_fs s1 \<and> log_lines s2 = log_lines s1"
proof -
  have wfs: "well_formed s Source" using assms(1) wf_fs_well_formed[of s Source] by simp
  have wf: "well_formed s Replica" using assms(2) wf_fs_well_formed[of s Replica] by simp
  have safe: "cache_safe H s" using assms(3) by (rule cache_ok_safe)
  note c = synchronize_converges[OF assms(5) wfs wf safe]
  have root: "src s1 [] \<noteq> None" using c(1) assms(4) by simp
  obtain s2 where "synchronize H s1 = Returned () s2" "unchanged s1 s2"
    using synchronize_quiet[OF assms(6) c(2,3) root] by blast
  then have "sync_folders H s1 = Returned () s2 \<and> source_fs s2 = source_fs s1 \<and>
           replica_fs s2 = replica_fs s1 \<and> log_lines s2 = log_lines s1"
    by (simp add: sync_folders_def unchanged_def)
  then show ?thesis by blast
qed

theorem second_pass_does_nothing_witness:
  "wf_fs [([], Dir), ([''a''], Dir), ([''a'', ''x''], File ''hi''), ([''b''], Dir)] \<and>
   wf_fs [] \<and>
   src (fresh [([], Dir), ([''a''], Dir), ([''a'', ''x''], File ''hi''), ([''b''], Dir)] []) [] \<noteq> None \<and>
   raised (synchronize plain_digest
     (fresh [([], Dir), ([''a''], Dir), ([''a'', ''x''], File ''hi''), ([''b''], Dir)] [])) = None \<and>
   (\<exists>s2. sync_folders plain_digest (final (synchronize plain_digest
             (fresh [([], Dir), ([''a''], Dir), ([''a'', ''x''], File ''hi''), ([''b''], Dir)] [])))
           = Returned () s2 \<and>
         log_lines s2 = log_lines (final (synchronize plain_digest
             (fresh [([], Dir), ([''a''], Dir), ([''a'', ''x''], File ''hi''), ([''b''], Dir)] []))) \<and>
         replica_fs s2 = replica_fs (final (synchronize plain_digest
             (fresh [([], Dir), ([''a''], Dir), ([''a'', ''x''], File ''hi''), ([''b''], Dir)] []))))"
proof -
  let ?src = "[([], Dir), ([''a''], Dir), ([''a'', ''x''], File ''hi''), ([''b''], Dir)]"
  let ?s = "fresh ?src []"
  let ?s1 = "final (synchronize plain_digest ?s)"
  have wf1: "wf_fs ?src" by code_simp
  have wf2: "wf_fs []" by code_simp
  have ok: "cache_ok plain_digest ?s" by (simp add: cache_ok_def)
  have root: "src ?s [] \<noteq> None" by simp
  have ended: "raised (synchronize plain_digest ?s) = None" by code_simp
  have run: "synchronize plain_digest ?s = Returned () ?s1" using ended by (rule returned_final)
  have "md5_cache ?s1 l = None" for l by code_simp
  then have ok1: "cache_ok plain_digest ?s1" by (simp add: cache_ok_def)
  have "\<exists>s2. sync_folders plain_digest ?s1 = Returned () s2 \<and> source_fs s2 = source_fs ?s1 \<and>
           replica_fs s2 = replica_fs ?s1 \<and> log_lines s2 = log_lines ?s1"
    using second_pass_does_nothing[of ?s plain_digest ?s1] wf1 wf2 ok root run ok1 by simp
  then have last: "\<exists>s2. sync_folders plain_digest ?s1 = Returned () s2 \<and>
      log_lines s2 = log_lines ?s1 \<and> replica_fs s2 = replica_fs ?s1" by blast
  show ?thesis using wf1 wf2 root ended last by (intro conjI)
qed

end
